theory Spec2Isabelle
  imports Complex_Main
begin

section \<open>Python values used by push\_digest.py\<close>

text \<open>
  A Python \<open>str\<close> is a sequence of Unicode code points, so it is modelled as a list of
  natural numbers (one per code point), not as a byte string: \<open>len\<close>, slicing, the CJK
  range test and the sentence terminators of the source all count code points.
\<close>

type_synonym pystr = "nat list"

definition asc :: "string \<Rightarrow> pystr" where
  "asc s = map of_char s"

text \<open>
  The code points for which \<open>str.isspace\<close> holds; \<open>str.strip()\<close> and the regular
  expression class \<open>\s\<close> (on \<open>str\<close> patterns) both use exactly this set.
\<close>

definition is_space :: "nat \<Rightarrow> bool" where
  "is_space c =
     (c \<in> {0x09, 0x0A, 0x0B, 0x0C, 0x0D, 0x1C, 0x1D, 0x1E, 0x1F, 0x20, 0x85, 0xA0,
            0x1680, 0x2028, 0x2029, 0x202F, 0x205F, 0x3000}
      \<or> (0x2000 \<le> c \<and> c \<le> 0x200A))"

definition lstrip :: "pystr \<Rightarrow> pystr" where
  "lstrip s = dropWhile is_space s"

definition rstrip :: "pystr \<Rightarrow> pystr" where
  "rstrip s = rev (dropWhile is_space (rev s))"

definition strip :: "pystr \<Rightarrow> pystr" where
  "strip s = rstrip (lstrip s)"

text \<open>\<open>s.strip(chars)\<close>: removes leading and trailing code points that occur in \<open>chars\<close>.\<close>

definition strip_chars :: "pystr \<Rightarrow> pystr \<Rightarrow> pystr" where
  "strip_chars chars s =
     rev (dropWhile (\<lambda>c. c \<in> set chars) (rev (dropWhile (\<lambda>c. c \<in> set chars) s)))"

text \<open>The slice \<open>s[:k]\<close> for a Python int \<open>k\<close>; a negative \<open>k\<close> counts from the end.\<close>

definition py_prefix :: "int \<Rightarrow> pystr \<Rightarrow> pystr" where
  "py_prefix k s = (if 0 \<le> k then take (nat k) s else take (length s - nat (- k)) s)"

text \<open>Truthiness of an \<open>Optional[str]\<close>: \<open>None\<close> and \<open>""\<close> are false.\<close>

fun truthy_str :: "pystr option \<Rightarrow> bool" where
  "truthy_str None = False"
| "truthy_str (Some s) = (s \<noteq> [])"

text \<open>\<open>x or ""\<close> for an \<open>Optional[str]\<close>.\<close>

fun or_empty :: "pystr option \<Rightarrow> pystr" where
  "or_empty None = []"
| "or_empty (Some s) = s"

text \<open>
  \<open>trim_whitespace(text) = re.sub(r"\s+", " ", text or "").strip()\<close>: every maximal run
  of whitespace becomes one space, then the ends are stripped.
\<close>

function collapse_ws :: "pystr \<Rightarrow> pystr" where
  "collapse_ws [] = []"
| "collapse_ws (c # cs) =
     (if is_space c then 0x20 # collapse_ws (dropWhile is_space cs) else c # collapse_ws cs)"
  by pat_completeness auto
termination
  by (relation "measure length") (auto simp: less_Suc_eq_le length_dropWhile_le)

definition trim_whitespace :: "pystr \<Rightarrow> pystr" where
  "trim_whitespace text = strip (collapse_ws text)"

text \<open>The exceptions of the source that no handler of the modelled functions catches.\<close>

datatype py_error = KeyError | IndexError | TypeError | AttributeError | ValueError

section \<open>The data model\<close>

text \<open>
  \<open>NewsEntry\<close>. A \<open>datetime\<close> is the number of microseconds since \<open>datetime.min\<close>, so
  the value \<open>0\<close> is the \<open>baseline\<close> of \<open>fetch_feed_entries\<close>.
\<close>

record news_entry =
  title :: pystr
  link :: pystr
  published_at :: "nat option"
  source :: "pystr option"
  description :: pystr
  translation :: "pystr option"
  summary :: "pystr option"
  kept_original :: bool

section \<open>The local fallback summarizer\<close>

definition LABEL :: pystr where
  "LABEL = [0x8981, 0x70B9, 0xFF1A]"

definition NO_SUMMARY :: pystr where
  "NO_SUMMARY = [0x6682, 0x65E0, 0x6458, 0x8981, 0x3002]"

definition DASH :: pystr where
  "DASH = [0x2014, 0x2014]"

definition ELLIPSIS :: pystr where
  "ELLIPSIS = [0x2026]"

text \<open>The character class of \<open>re.search(r"[...]", clean)\<close> in \<open>local_summary\<close>.\<close>

definition is_terminator :: "nat \<Rightarrow> bool" where
  "is_terminator c = (c \<in> {0x3002, 0xFF01, 0xFF1F, 0x21, 0x3F, 0x2E})"

text \<open>\<open>sentence_end.end()\<close> of the first match, or \<open>None\<close> when nothing matches.\<close>

fun search_terminator :: "pystr \<Rightarrow> nat option" where
  "search_terminator [] = None"
| "search_terminator (c # cs) =
     (if is_terminator c then Some 1 else map_option Suc (search_terminator cs))"

definition local_summary :: "pystr option \<Rightarrow> pystr option \<Rightarrow> int \<Rightarrow> pystr" where
  "local_summary text title_opt max_chars =
     (let clean = strip (or_empty text) in
      if clean = [] then
        (if truthy_str title_opt then LABEL @ strip (or_empty title_opt) else NO_SUMMARY)
      else
        let candidate0 = (case search_terminator clean of
                            Some e \<Rightarrow> take e clean
                          | None \<Rightarrow> clean);
            candidate = (if max_chars < int (length candidate0)
                         then rstrip (py_prefix (max_chars - 1) candidate0) @ ELLIPSIS
                         else candidate0)
        in if truthy_str title_opt \<and> candidate = clean
           then LABEL @ strip (or_empty title_opt) @ DASH @ candidate
           else LABEL @ candidate)"

section \<open>Loading the env file\<close>

text \<open>
  \<open>os.environ\<close> keeps its data under encoded names: \<open>key in os.environ\<close>,
  \<open>os.environ[key]\<close> and \<open>os.environ[key] = value\<close> all pass the name through
  \<open>encodekey\<close> first. On POSIX \<open>encodekey\<close> keeps the name as it is, so names are case
  sensitive; on Windows it is \<open>encode(key).upper()\<close>, so names are not. The model takes
  \<open>encodekey\<close> as a parameter: the state is the map from encoded names to values.
  \<open>nt_encodekey\<close> upper-cases the ASCII letters, which is what \<open>str.upper\<close> does on a
  name written in ASCII.

  The file is the list of its lines as the \<open>for raw_line in handle\<close> loop reads them;
  \<open>None\<close> stands for an empty path, a missing file or a file that cannot be opened. A
  read that fails part of the way through leaves the state that the lines read so far
  produce. \<open>os.environ[key] = value\<close> raises \<open>ValueError\<close> for an embedded NUL; the
  function does not catch it, so the result carries the exception and the state
  reached. The test \<open>key in SENSITIVE_ENV_KEYS\<close> compares the name as written in the
  file, on every platform.
\<close>

type_synonym environ = "pystr \<Rightarrow> pystr option"

definition posix_encodekey :: "pystr \<Rightarrow> pystr" where
  "posix_encodekey key = key"

definition nt_encodekey :: "pystr \<Rightarrow> pystr" where
  "nt_encodekey key = map (\<lambda>c. if 0x61 \<le> c \<and> c \<le> 0x7A then c - 0x20 else c) key"

definition SENSITIVE_ENV_KEYS :: "pystr set" where
  "SENSITIVE_ENV_KEYS =
     {asc ''SERVERCHAN_KEY'', asc ''OPENROUTER_KEY'',
      asc ''GOOGLE_SERVICE_ACCOUNT_JSON'', asc ''GOOGLE_CALENDAR_ID''}"

fun starts_with :: "nat \<Rightarrow> pystr \<Rightarrow> bool" where
  "starts_with c [] = False"
| "starts_with c (d # ds) = (c = d)"

fun env_lines ::
  "(pystr \<Rightarrow> pystr) \<Rightarrow> pystr list \<Rightarrow> environ \<Rightarrow> py_error option \<times> environ" where
  "env_lines encodekey [] env = (None, env)"
| "env_lines encodekey (raw_line # rest) env =
     (let line = strip raw_line in
      if line = [] then env_lines encodekey rest env
      else if starts_with 0x23 line then env_lines encodekey rest env
      else if 0x3D \<notin> set line then env_lines encodekey rest env
      else
        let key = strip (takeWhile (\<lambda>c. c \<noteq> 0x3D) line);
            rhs = tl (dropWhile (\<lambda>c. c \<noteq> 0x3D) line)
        in if key = [] then env_lines encodekey rest env
           else if env (encodekey key) \<noteq> None then env_lines encodekey rest env
           else if key \<in> SENSITIVE_ENV_KEYS then env_lines encodekey rest env
           else
             let v = strip_chars [0x27] (strip_chars [0x22] (strip rhs))
             in if 0 \<in> set key then (Some ValueError, env)
                else if 0 \<in> set v then (Some ValueError, env)
                else env_lines encodekey rest (env(encodekey key \<mapsto> v)))"

definition load_env_file ::
  "(pystr \<Rightarrow> pystr) \<Rightarrow> pystr list option \<Rightarrow> environ \<Rightarrow> py_error option \<times> environ" where
  "load_env_file encodekey file env =
     (case file of None \<Rightarrow> (None, env) | Some ls \<Rightarrow> env_lines encodekey ls env)"

section \<open>Fetching, ranking and de-duplicating feed entries\<close>

text \<open>
  What the environment supplies to \<open>fetch_feed_entries\<close>: for each feed URL, in order,
  either a failure (the \<open>except Exception\<close> branch) or the items \<open>feedparser\<close> parsed.
  An item carries the values the loop reads from it: the result of
  \<open>parse_datetime(entry.get("published"))\<close>, the title, \<open>entry.get("link") or ""\<close>, the
  summary or description markup and the source title (\<open>""\<close> when absent).
  \<open>html_of\<close> stands for \<open>unescape(BeautifulSoup(text).get_text(...))\<close>.
\<close>

record feed_item =
  item_published :: "nat option"
  item_title :: pystr
  item_link :: pystr
  item_summary :: pystr
  item_source :: pystr

datatype feed_result = FeedFailed | FeedParsed "feed_item list"

definition strip_html :: "(pystr \<Rightarrow> pystr) \<Rightarrow> pystr \<Rightarrow> pystr" where
  "strip_html html_of text = (if text = [] then [] else trim_whitespace (html_of text))"

fun feed_entries :: "(pystr \<Rightarrow> pystr) \<Rightarrow> int \<Rightarrow> feed_item list \<Rightarrow> news_entry list" where
  "feed_entries html_of cutoff [] = []"
| "feed_entries html_of cutoff (it # its) =
     (if (case item_published it of Some p \<Rightarrow> int p < cutoff | None \<Rightarrow> False)
      then feed_entries html_of cutoff its
      else \<lparr> title = trim_whitespace (item_title it),
             link = item_link it,
             published_at = item_published it,
             source = Some (trim_whitespace (item_source it)),
             description = strip_html html_of (item_summary it),
             translation = None,
             summary = None,
             kept_original = True \<rparr>
           # feed_entries html_of cutoff its)"

fun collect_entries :: "(pystr \<Rightarrow> pystr) \<Rightarrow> int \<Rightarrow> feed_result list \<Rightarrow> news_entry list" where
  "collect_entries html_of cutoff [] = []"
| "collect_entries html_of cutoff (FeedFailed # feeds) = collect_entries html_of cutoff feeds"
| "collect_entries html_of cutoff (FeedParsed its # feeds) =
     feed_entries html_of cutoff its @ collect_entries html_of cutoff feeds"

definition baseline :: nat where
  "baseline = 0"

text \<open>The sort key \<open>item.published_at or baseline\<close>.\<close>

definition published_key :: "news_entry \<Rightarrow> nat" where
  "published_key item = (case published_at item of None \<Rightarrow> baseline | Some t \<Rightarrow> t)"

text \<open>
  \<open>sorted(entries, key=..., reverse=True)\<close>: Python reverses the list, sorts it stably in
  ascending order and reverses the result, so equal keys keep their input order.
\<close>

definition sorted_reverse :: "news_entry list \<Rightarrow> news_entry list" where
  "sorted_reverse entries = rev (sort_key published_key (rev entries))"

definition dedup_key :: "news_entry \<Rightarrow> pystr \<times> pystr" where
  "dedup_key entry = (title entry, link entry)"

text \<open>The de-duplication loop, with its variables \<open>seen\<close> and \<open>deduped\<close>.\<close>

fun dedup_loop ::
  "(pystr \<times> pystr) set \<Rightarrow> news_entry list \<Rightarrow> int \<Rightarrow> news_entry list \<Rightarrow> news_entry list" where
  "dedup_loop seen deduped max_items [] = deduped"
| "dedup_loop seen deduped max_items (entry # rest) =
     (if dedup_key entry \<in> seen then dedup_loop seen deduped max_items rest
      else if max_items \<le> int (length (deduped @ [entry])) then deduped @ [entry]
      else dedup_loop (insert (dedup_key entry) seen) (deduped @ [entry]) max_items rest)"

text \<open>
  \<open>now_dt\<close> is \<open>datetime.now(tz=TZ)\<close>; the cutoff is \<open>lookback_hours\<close> hours earlier, in
  microseconds.
\<close>

definition fetch_feed_entries ::
  "(pystr \<Rightarrow> pystr) \<Rightarrow> feed_result list \<Rightarrow> nat \<Rightarrow> int \<Rightarrow> int \<Rightarrow> news_entry list" where
  "fetch_feed_entries html_of feeds now_dt lookback_hours max_items =
     (let cutoff = int now_dt - lookback_hours * 3600000000;
          entries = collect_entries html_of cutoff feeds
      in dedup_loop {} [] max_items (sorted_reverse entries))"

section \<open>The rate-limited enrichment client\<close>

text \<open>
  The values \<open>json.loads\<close> and \<open>resp.json()\<close> produce. \<open>JNull\<close> is Python's \<open>None\<close>;
  an object is the list of the items of the resulting \<open>dict\<close> (its keys are distinct).
\<close>

datatype json =
    JNull
  | JBool bool
  | JNum int
  | JStr pystr
  | JArr "json list"
  | JObj "(pystr \<times> json) list"

text \<open>Python truthiness of such a value (\<open>if response:\<close>, \<open>if data:\<close>, \<open>text or ""\<close>).\<close>

fun truthy :: "json \<Rightarrow> bool" where
  "truthy JNull = False"
| "truthy (JBool b) = b"
| "truthy (JNum n) = (n \<noteq> 0)"
| "truthy (JStr s) = (s \<noteq> [])"
| "truthy (JArr xs) = (xs \<noteq> [])"
| "truthy (JObj kvs) = (kvs \<noteq> [])"

text \<open>\<open>x[key]\<close> for a string key and \<open>x[0]\<close>, with the exception Python raises.\<close>

fun getitem_key :: "json \<Rightarrow> pystr \<Rightarrow> py_error + json" where
  "getitem_key (JObj kvs) k = (case map_of kvs k of None \<Rightarrow> Inl KeyError | Some v \<Rightarrow> Inr v)"
| "getitem_key JNull k = Inl TypeError"
| "getitem_key (JBool b) k = Inl TypeError"
| "getitem_key (JNum n) k = Inl TypeError"
| "getitem_key (JStr s) k = Inl TypeError"
| "getitem_key (JArr xs) k = Inl TypeError"

fun getitem_0 :: "json \<Rightarrow> py_error + json" where
  "getitem_0 (JArr []) = Inl IndexError"
| "getitem_0 (JArr (x # xs)) = Inr x"
| "getitem_0 (JStr []) = Inl IndexError"
| "getitem_0 (JStr (c # cs)) = Inr (JStr [c])"
| "getitem_0 (JObj kvs) = Inl KeyError"
| "getitem_0 JNull = Inl TypeError"
| "getitem_0 (JBool b) = Inl TypeError"
| "getitem_0 (JNum n) = Inl TypeError"

text \<open>\<open>data["choices"][0]["message"]["content"]\<close>.\<close>

definition completion_content :: "json \<Rightarrow> py_error + json" where
  "completion_content data =
     (case getitem_key data (asc ''choices'') of
        Inl err \<Rightarrow> Inl err
      | Inr choices \<Rightarrow>
          (case getitem_0 choices of
             Inl err \<Rightarrow> Inl err
           | Inr choice \<Rightarrow>
               (case getitem_key choice (asc ''message'') of
                  Inl err \<Rightarrow> Inl err
                | Inr message \<Rightarrow> getitem_key message (asc ''content''))))"

text \<open>
  What one \<open>REQUEST_SESSION.post\<close> does (one attempt of the loop, with whatever the
  session's transport adapter does inside it): it raises a \<open>requests.RequestException\<close>
  (timeout, connection error), or it returns a response with a status code and a body
  (\<open>None\<close>: the body is not JSON, so \<open>resp.json()\<close> raises \<open>requests.JSONDecodeError\<close>, a
  \<open>RequestException\<close> since requests 2.27). The environment also fixes how long the
  call takes, the value \<open>random.uniform(0, 1)\<close> draws for the backoff, and by how much
  the two \<open>sleep\<close> calls of the attempt overshoot.
\<close>

datatype post_outcome = PostRaises | PostReturns nat "json option"

record post_env =
  outcome :: post_outcome
  took :: real
  jitter :: real
  pace_slack :: real
  backoff_slack :: real

text \<open>
  The configuration and the environment of a run: the values read from \<open>os.environ\<close> at
  import time, \<open>json.loads\<close> (\<open>None\<close>: \<open>JSONDecodeError\<close>), the text extraction of
  \<open>strip_html\<close>, the prompt template of \<open>translate_and_summarize\<close> (the dedented
  f-string, as a function of the topic label and the text block), and the network: what
  the \<open>n\<close>-th POST of the run does, given the prompt sent.
\<close>

record config =
  OPENROUTER_KEY :: "pystr option"
  OPENROUTER_FORCE :: bool
  MAX_PROMPT_CHARS :: int
  json_loads :: "pystr \<Rightarrow> json option"
  html_text :: "pystr \<Rightarrow> pystr"
  prompt_template :: "pystr \<Rightarrow> pystr \<Rightarrow> pystr"
  net :: "nat \<Rightarrow> pystr \<Rightarrow> post_env"

text \<open>
  The state of the process: the value \<open>monotonic()\<close> returns, the global
  \<open>_last_openrouter_call\<close>, and two observation logs that the source does not keep: the
  clock value at which each POST was issued (oldest first) and the number of times
  \<open>call_openrouter\<close> was entered.
\<close>

record world =
  now :: real
  last_openrouter_call :: real
  posts :: "real list"
  client_calls :: nat

definition OPENROUTER_MAX_CALLS_PER_MIN :: real where
  "OPENROUTER_MAX_CALLS_PER_MIN = 12"

definition OPENROUTER_MIN_INTERVAL :: real where
  "OPENROUTER_MIN_INTERVAL = 60 / OPENROUTER_MAX_CALLS_PER_MIN"

definition OPENROUTER_MAX_RETRIES :: nat where
  "OPENROUTER_MAX_RETRIES = 5"

definition OPENROUTER_BACKOFF_BASE :: real where
  "OPENROUTER_BACKOFF_BASE = 3"

definition sleep :: "real \<Rightarrow> world \<Rightarrow> world" where
  "sleep d w = w\<lparr>now := now w + d\<rparr>"

text \<open>The pacing before a POST: lines 473 to 477 of the source.\<close>

definition pace :: "real \<Rightarrow> world \<Rightarrow> world" where
  "pace slack w =
     (let elapsed = now w - last_openrouter_call w in
      if elapsed < OPENROUTER_MIN_INTERVAL
      then sleep (OPENROUTER_MIN_INTERVAL - elapsed + slack) w
      else w)"

text \<open>
  The loop \<open>for attempt in range(OPENROUTER_MAX_RETRIES)\<close> over the attempt numbers still
  to run. \<open>last_openrouter_call\<close> is assigned only after \<open>post\<close> has returned.
\<close>

fun openrouter_attempts ::
  "config \<Rightarrow> pystr \<Rightarrow> nat list \<Rightarrow> world \<Rightarrow> (py_error + json) \<times> world" where
  "openrouter_attempts C prompt [] w = (Inr JNull, w)"
| "openrouter_attempts C prompt (attempt # rest) w =
     (let pe = net C (length (posts w)) prompt;
          w1 = pace (pace_slack pe) w;
          w2 = w1\<lparr>posts := posts w1 @ [now w1], now := now w1 + took pe\<rparr>;
          backoff = OPENROUTER_BACKOFF_BASE * 2 ^ attempt + jitter pe
      in case outcome pe of
           PostRaises \<Rightarrow>
             openrouter_attempts C prompt rest (sleep (backoff + backoff_slack pe) w2)
         | PostReturns status body \<Rightarrow>
             let w3 = w2\<lparr>last_openrouter_call := now w2\<rparr> in
             if status = 429
             then openrouter_attempts C prompt rest (sleep (backoff + backoff_slack pe) w3)
             else if 400 \<le> status \<and> status < 600
             then openrouter_attempts C prompt rest (sleep (backoff + backoff_slack pe) w3)
             else (case body of
                     None \<Rightarrow>
                       openrouter_attempts C prompt rest (sleep (backoff + backoff_slack pe) w3)
                   | Some data \<Rightarrow>
                       (case completion_content data of
                          Inl err \<Rightarrow> (Inl err, w3)
                        | Inr content \<Rightarrow> (Inr content, w3))))"

definition call_openrouter :: "config \<Rightarrow> pystr \<Rightarrow> world \<Rightarrow> (py_error + json) \<times> world" where
  "call_openrouter C prompt w =
     (let w0 = w\<lparr>client_calls := client_calls w + 1\<rparr> in
      if truthy_str (OPENROUTER_KEY C)
      then openrouter_attempts C prompt [0..<OPENROUTER_MAX_RETRIES] w0
      else (Inr JNull, w0))"

section \<open>The enrichment policy\<close>

text \<open>\<open>text.find(c)\<close> and \<open>text.rfind(c)\<close> for a single character.\<close>

definition str_find :: "nat \<Rightarrow> pystr \<Rightarrow> int" where
  "str_find c s = (if c \<in> set s then int (length (takeWhile (\<lambda>d. d \<noteq> c) s)) else - 1)"

definition str_rfind :: "nat \<Rightarrow> pystr \<Rightarrow> int" where
  "str_rfind c s =
     (if c \<in> set s then int (length s) - 1 - int (length (takeWhile (\<lambda>d. d \<noteq> c) (rev s)))
      else - 1)"

text \<open>
  \<open>extract_json_from_text\<close>, applied to whatever \<open>call_openrouter\<close> returned.
  \<open>json.loads\<close> raises \<open>TypeError\<close> for an argument that is not a string.
\<close>

definition extract_json_from_text :: "(pystr \<Rightarrow> json option) \<Rightarrow> json \<Rightarrow> py_error + json" where
  "extract_json_from_text loads text =
     (if truthy text then
        (case text of
           JStr s \<Rightarrow>
             (case loads s of
                Some v \<Rightarrow> Inr v
              | None \<Rightarrow>
                  let start = str_find 0x7B s; stop = str_rfind 0x7D s in
                  if 0 \<le> start \<and> start < stop
                  then (case loads (take (nat (stop + 1 - start)) (drop (nat start) s)) of
                          Some v \<Rightarrow> Inr v
                        | None \<Rightarrow> Inr JNull)
                  else Inr JNull)
         | JNull \<Rightarrow> Inl TypeError
         | JBool b \<Rightarrow> Inl TypeError
         | JNum n \<Rightarrow> Inl TypeError
         | JArr xs \<Rightarrow> Inl TypeError
         | JObj kvs \<Rightarrow> Inl TypeError)
      else Inr JNull)"

text \<open>\<open>data.get(key, "")\<close>: only a \<open>dict\<close> has the method.\<close>

fun data_get :: "json \<Rightarrow> pystr \<Rightarrow> py_error + json" where
  "data_get (JObj kvs) k = (case map_of kvs k of None \<Rightarrow> Inr (JStr []) | Some v \<Rightarrow> Inr v)"
| "data_get JNull k = Inl AttributeError"
| "data_get (JBool b) k = Inl AttributeError"
| "data_get (JNum n) k = Inl AttributeError"
| "data_get (JStr s) k = Inl AttributeError"
| "data_get (JArr xs) k = Inl AttributeError"

text \<open>
  \<open>trim_whitespace(v)\<close> for a value of any type: \<open>v or ""\<close> is \<open>""\<close> for a false value,
  and \<open>re.sub\<close> raises \<open>TypeError\<close> for a true value that is not a string.
\<close>

fun trim_whitespace_of :: "json \<Rightarrow> py_error + pystr" where
  "trim_whitespace_of (JStr s) = Inr (trim_whitespace s)"
| "trim_whitespace_of JNull = Inr (trim_whitespace [])"
| "trim_whitespace_of (JBool b) = (if b then Inl TypeError else Inr (trim_whitespace []))"
| "trim_whitespace_of (JNum n) = (if n \<noteq> 0 then Inl TypeError else Inr (trim_whitespace []))"
| "trim_whitespace_of (JArr xs) = (if xs \<noteq> [] then Inl TypeError else Inr (trim_whitespace []))"
| "trim_whitespace_of (JObj kvs) = (if kvs \<noteq> [] then Inl TypeError else Inr (trim_whitespace []))"

text \<open>
  Lines 538 to 544 of \<open>translate_and_summarize\<close>: the values of \<open>translation\<close> and
  \<open>summary\<close> after the response has been read.
\<close>

definition reply_fields ::
  "(pystr \<Rightarrow> json option) \<Rightarrow> json \<Rightarrow> py_error + (pystr option \<times> pystr option)" where
  "reply_fields loads response =
     (if truthy response then
        (case extract_json_from_text loads response of
           Inl err \<Rightarrow> Inl err
         | Inr data \<Rightarrow>
             if truthy data then
               (case data_get data (asc ''translation'') of
                  Inl err \<Rightarrow> Inl err
                | Inr tv \<Rightarrow>
                    (case trim_whitespace_of tv of
                       Inl err \<Rightarrow> Inl err
                     | Inr t \<Rightarrow>
                         (case data_get data (asc ''summary'') of
                            Inl err \<Rightarrow> Inl err
                          | Inr sv \<Rightarrow>
                              (case trim_whitespace_of sv of
                                 Inl err \<Rightarrow> Inl err
                               | Inr s \<Rightarrow> Inr (Some t, Some s)))))
             else Inr (None, None))
      else Inr (None, None))"

definition NO_BODY :: pystr where
  "NO_BODY = [0xFF08, 0x65E0, 0x6458, 0x8981, 0xFF09]"

definition DOTS :: pystr where
  "DOTS = [0x2026, 0x2026]"

definition TITLE_TAG :: pystr where
  "TITLE_TAG = [0x6807, 0x9898, 0xFF1A]"

definition CONTENT_TAG :: pystr where
  "CONTENT_TAG = [0x0A, 0x5185, 0x5BB9, 0xFF1A]"

definition PLACEHOLDER :: pystr where
  "PLACEHOLDER =
     [0x65E0, 0x6CD5, 0x751F, 0x6210, 0x6458, 0x8981, 0xFF0C,
      0x5DF2, 0x4FDD, 0x7559, 0x539F, 0x6587, 0x3002]"

text \<open>\<open>entry.description or entry.title\<close>.\<close>

definition description_or_title :: "news_entry \<Rightarrow> pystr" where
  "description_or_title entry = (if description entry \<noteq> [] then description entry else title entry)"

text \<open>
  \<open>translate_and_summarize\<close> on the value of the entry object: the result is the value
  the object has when the function returns, or the exception that leaves it (the three
  assignments to the entry are its last statements, so an exception leaves the object
  as it was).
\<close>

definition translate_and_summarize ::
  "config \<Rightarrow> news_entry \<Rightarrow> pystr \<Rightarrow> world \<Rightarrow> (py_error + news_entry) \<times> world" where
  "translate_and_summarize C entry topic_label w =
     (let body0 = (if description entry \<noteq> [] then description entry else NO_BODY);
          body = (if 0 < MAX_PROMPT_CHARS C \<and> MAX_PROMPT_CHARS C < int (length body0)
                  then py_prefix (MAX_PROMPT_CHARS C) body0 @ DOTS
                  else body0);
          text_block = TITLE_TAG @ title entry @ CONTENT_TAG @ body;
          prompt = prompt_template C topic_label text_block;
          called = call_openrouter C prompt w
      in case fst called of
           Inl err \<Rightarrow> (Inl err, snd called)
         | Inr response \<Rightarrow>
             (case reply_fields (json_loads C) response of
                Inl err \<Rightarrow> (Inl err, snd called)
              | Inr parsed \<Rightarrow>
                  let translation1 = (if truthy_str (fst parsed)
                                      then Some (strip_html (html_text C) (or_empty (fst parsed)))
                                      else fst parsed);
                      translation_used = truthy_str translation1;
                      translation2 = (if truthy_str translation1 then translation1
                                      else Some (description_or_title entry));
                      summary1 = (if truthy_str (snd parsed) then snd parsed
                                  else Some PLACEHOLDER)
                  in (Inr (entry\<lparr>translation := translation2,
                                  summary := summary1,
                                  kept_original := \<not> translation_used\<rparr>),
                      snd called)))"

definition contains_cjk :: "pystr \<Rightarrow> bool" where
  "contains_cjk text = list_ex (\<lambda>c. 0x4E00 \<le> c \<and> c \<le> 0x9FFF) text"

definition should_use_openrouter :: "config \<Rightarrow> news_entry \<Rightarrow> bool" where
  "should_use_openrouter C entry =
     (if OPENROUTER_FORCE C then True
      else let text = strip (title entry @ [0x20] @ description entry) in
           if text = [] then True else \<not> contains_cjk text)"

text \<open>
  \<open>enrich_news\<close> mutates the entry objects it is given. Objects live in a store from
  references to values; the input and the result are lists of references. The state
  reached when an exception leaves the loop is kept: entries enriched before it stay
  enriched.
\<close>

type_synonym ref = nat

type_synonym store = "ref \<Rightarrow> news_entry"

fun enrich_loop ::
  "config \<Rightarrow> pystr \<Rightarrow> ref list \<Rightarrow> ref list \<Rightarrow> store \<Rightarrow> world
     \<Rightarrow> (py_error + ref list) \<times> store \<times> world" where
  "enrich_loop C topic_label [] enriched h w = (Inr enriched, h, w)"
| "enrich_loop C topic_label (r # rest) enriched h w =
     (if should_use_openrouter C (h r) then
        (let res = translate_and_summarize C (h r) topic_label w in
         case fst res of
           Inl err \<Rightarrow> (Inl err, h, snd res)
         | Inr entry' \<Rightarrow>
             enrich_loop C topic_label rest (enriched @ [r]) (h(r := entry')) (snd res))
      else
        (let fallback_text = description_or_title (h r);
             entry' = (h r)\<lparr>translation := Some fallback_text,
                            summary := Some (local_summary (Some fallback_text)
                                               (Some (title (h r))) 200),
                            kept_original := True\<rparr>
         in enrich_loop C topic_label rest (enriched @ [r]) (h(r := entry')) w))"

definition enrich_news ::
  "config \<Rightarrow> ref list \<Rightarrow> pystr \<Rightarrow> store \<Rightarrow> world \<Rightarrow> (py_error + ref list) \<times> store \<times> world" where
  "enrich_news C entries topic_label h w = enrich_loop C topic_label entries [] h w"

text \<open>
  Two values of an entry that agree on every field but \<open>translation\<close>, \<open>summary\<close> and
  \<open>kept_original\<close>.
\<close>

definition same_article :: "news_entry \<Rightarrow> news_entry \<Rightarrow> bool" where
  "same_article a b =
     (title a = title b \<and> link a = link b \<and> published_at a = published_at b
      \<and> source a = source b \<and> description a = description b)"

section \<open>Concrete scenarios\<close>

text \<open>
  Three feed items with the title \<open>X\<close>: two with the same link, published at different
  times, and one with another link.
\<close>

definition item_x_old :: feed_item where
  "item_x_old = \<lparr> item_published = Some 1000, item_title = asc ''X'',
                  item_link = asc ''https://a'', item_summary = asc ''old'',
                  item_source = asc ''A'' \<rparr>"

definition item_x_new :: feed_item where
  "item_x_new = \<lparr> item_published = Some 2000, item_title = asc ''X'',
                  item_link = asc ''https://a'', item_summary = asc ''new'',
                  item_source = asc ''B'' \<rparr>"

definition item_x_mirror :: feed_item where
  "item_x_mirror = \<lparr> item_published = Some 1500, item_title = asc ''X'',
                     item_link = asc ''https://b'', item_summary = asc ''mirror'',
                     item_source = asc ''C'' \<rparr>"

text \<open>The entries \<open>fetch_feed_entries\<close> builds from them.\<close>

definition entry_x_old :: news_entry where
  "entry_x_old = \<lparr> title = asc ''X'', link = asc ''https://a'', published_at = Some 1000,
                   source = Some (asc ''A''), description = asc ''old'',
                   translation = None, summary = None, kept_original = True \<rparr>"

definition entry_x_new :: news_entry where
  "entry_x_new = \<lparr> title = asc ''X'', link = asc ''https://a'', published_at = Some 2000,
                   source = Some (asc ''B''), description = asc ''new'',
                   translation = None, summary = None, kept_original = True \<rparr>"

definition entry_x_mirror :: news_entry where
  "entry_x_mirror = \<lparr> title = asc ''X'', link = asc ''https://b'', published_at = Some 1500,
                      source = Some (asc ''C''), description = asc ''mirror'',
                      translation = None, summary = None, kept_original = True \<rparr>"

text \<open>
  A process at clock value 100 that has not called the endpoint yet, and an entry
  whose title is written in CJK ideographs.
\<close>

definition world0 :: world where
  "world0 = \<lparr> now = 100, last_openrouter_call = 0, posts = [], client_calls = 0 \<rparr>"

definition entry_cjk :: news_entry where
  "entry_cjk = \<lparr> title = [0x4E2D, 0x6587], link = asc ''https://c'', published_at = None,
                 source = Some [], description = [],
                 translation = None, summary = None, kept_original = True \<rparr>"

definition store0 :: store where
  "store0 r = (if r = 0 then entry_x_new else entry_cjk)"

text \<open>
  A POST with the given outcome that takes half a second, with a jitter of half a second
  and sleeps that do not overshoot; and the body of a successful completion whose
  generated text is \<open>content\<close>.
\<close>

definition quiet :: "post_outcome \<Rightarrow> post_env" where
  "quiet oc = \<lparr> outcome = oc, took = 1 / 2, jitter = 1 / 2, pace_slack = 0,
                backoff_slack = 0 \<rparr>"

definition completion :: "json \<Rightarrow> json" where
  "completion content =
     JObj [(asc ''choices'', JArr [JObj [(asc ''message'', JObj [(asc ''content'', content)])]])]"

text \<open>\<open>json.loads\<close> on the one text the scenarios parse: \<open>[1]\<close> is the list of the number 1.\<close>

definition loads_list :: "pystr \<Rightarrow> json option" where
  "loads_list s = (if s = asc ''[1]'' then Some (JArr [JNum 1]) else None)"

text \<open>A configuration with an API key and no force override, for a given network.\<close>

definition config_with :: "(nat \<Rightarrow> pystr \<Rightarrow> post_env) \<Rightarrow> config" where
  "config_with network =
     \<lparr> OPENROUTER_KEY = Some (asc ''sk''), OPENROUTER_FORCE = False, MAX_PROMPT_CHARS = 6000,
       json_loads = loads_list, html_text = (\<lambda>t. t),
       prompt_template = (\<lambda>topic_label text_block. topic_label @ text_block),
       net = network \<rparr>"

text \<open>The same without an API key.\<close>

definition config_nokey :: config where
  "config_nokey = (config_with (\<lambda>n prompt. quiet PostRaises))\<lparr>OPENROUTER_KEY := None\<rparr>"

text \<open>
  Networks: every POST raises a \<open>RequestException\<close>; the first POST raises one and the
  next succeeds; every POST is answered with status 429; the completion's text is the
  JSON list \<open>[1]\<close>; the response is a JSON object without \<open>choices\<close>.
\<close>

definition net_failures :: "nat \<Rightarrow> pystr \<Rightarrow> post_env" where
  "net_failures n prompt = quiet PostRaises"

definition net_failure_then_ok :: "nat \<Rightarrow> pystr \<Rightarrow> post_env" where
  "net_failure_then_ok n prompt =
     (if n = 0 then quiet PostRaises
      else quiet (PostReturns 200 (Some (completion (JStr (asc ''ok''))))))"

definition net_throttled :: "nat \<Rightarrow> pystr \<Rightarrow> post_env" where
  "net_throttled n prompt = quiet (PostReturns 429 None)"

definition net_list_reply :: "nat \<Rightarrow> pystr \<Rightarrow> post_env" where
  "net_list_reply n prompt = quiet (PostReturns 200 (Some (completion (JStr (asc ''[1]'')))))"

definition net_error_body :: "nat \<Rightarrow> pystr \<Rightarrow> post_env" where
  "net_error_body n prompt =
     quiet (PostReturns 200 (Some (JObj [(asc ''error'', JStr (asc ''overloaded''))])))"

text \<open>
  An environment in which \<open>HOME\<close> is set, and an env file that names \<open>HOME\<close>, a sensitive
  key and a new key whose value is quoted; and an env file whose only line names a
  sensitive key in lower case.
\<close>

definition env0 :: environ where
  "env0 = Map.empty(asc ''HOME'' \<mapsto> asc ''/root'')"

definition env_file0 :: "pystr list" where
  "env_file0 =
     [asc ''# settings'' @ [0x0A],
      asc ''HOME=/tmp'' @ [0x0A],
      asc ''OPENROUTER_KEY=abc'' @ [0x0A],
      asc '' FOO = '' @ [0x22] @ asc ''bar'' @ [0x22] @ [0x0A]]"

definition env_file_lower :: "pystr list" where
  "env_file_lower = [asc ''openrouter_key=abc'' @ [0x0A]]"

section \<open>Properties of the model\<close>

subsection \<open>The env file\<close>

lemma env_lines_keeps_set:
  "env k \<noteq> None \<Longrightarrow> snd (env_lines encodekey ls env) k = env k"
proof (induction ls arbitrary: env)
  case Nil
  then show ?case by simp
next
  case (Cons raw_line rest)
  then show ?case
    by (auto simp: Let_def)
qed

lemma env_lines_posix_sensitive:
  "k \<in> SENSITIVE_ENV_KEYS \<Longrightarrow> snd (env_lines posix_encodekey ls env) k = env k"
proof (induction ls arbitrary: env)
  case Nil
  then show ?case by simp
next
  case (Cons raw_line rest)
  then show ?case
    by (auto simp: Let_def posix_encodekey_def)
qed

text \<open>
  The parts of claim C10 that hold. On every platform a variable that is already set
  keeps its value, whatever the file holds. Where names are case sensitive (POSIX), no
  key of \<open>SENSITIVE_ENV_KEYS\<close> is changed either.
\<close>

lemma load_env_file_keeps_set:
  "env k \<noteq> None \<Longrightarrow> snd (load_env_file encodekey contents env) k = env k"
  by (cases contents) (simp_all add: load_env_file_def env_lines_keeps_set)

lemma load_env_file_posix_protects:
  "k \<in> SENSITIVE_ENV_KEYS \<Longrightarrow> snd (load_env_file posix_encodekey contents env) k = env k"
  by (cases contents) (simp_all add: load_env_file_def env_lines_posix_sensitive)

lemma load_env_file_posix_example:
  "snd (load_env_file posix_encodekey (Some env_file0) env0) (asc ''HOME'') = Some (asc ''/root'')
   \<and> snd (load_env_file posix_encodekey (Some env_file0) env0) (asc ''OPENROUTER_KEY'') = None
   \<and> snd (load_env_file posix_encodekey (Some env_file0) env0) (asc ''FOO'') = Some (asc ''bar'')"
  by (simp add: load_env_file_def env_file0_def env0_def SENSITIVE_ENV_KEYS_def
      posix_encodekey_def strip_def lstrip_def rstrip_def strip_chars_def is_space_def asc_def)

text \<open>
  Claim C10 on Windows, at an env file with the line \<open>openrouter_key=abc\<close> and an
  environment in which \<open>OPENROUTER_KEY\<close> is not set: the name as written is not in
  \<open>SENSITIVE_ENV_KEYS\<close>, and the assignment stores the value under the upper-cased name,
  so \<open>load_env_file\<close> sets the sensitive key \<open>OPENROUTER_KEY\<close> from the file.
\<close>

theorem load_env_file_sets_sensitive_key:
  "asc ''OPENROUTER_KEY'' \<in> SENSITIVE_ENV_KEYS
   \<and> env0 (nt_encodekey (asc ''OPENROUTER_KEY'')) = None
   \<and> load_env_file nt_encodekey (Some env_file_lower) env0
       = (None, env0(asc ''OPENROUTER_KEY'' \<mapsto> asc ''abc''))"
  by (simp add: load_env_file_def env_file_lower_def env0_def SENSITIVE_ENV_KEYS_def
      nt_encodekey_def strip_def lstrip_def rstrip_def strip_chars_def is_space_def asc_def)

subsection \<open>The decision to call the external client\<close>

lemma list_ex_dropWhile:
  "(\<And>c. Q c \<Longrightarrow> \<not> P c) \<Longrightarrow> list_ex P (dropWhile Q s) = list_ex P s"
  by (induction s) auto

lemma space_not_cjk: "is_space c \<Longrightarrow> \<not> (0x4E00 \<le> c \<and> c \<le> 0x9FFF)"
  by (auto simp: is_space_def)

lemma contains_cjk_strip: "contains_cjk (strip s) = contains_cjk s"
proof -
  have "list_ex (\<lambda>c. 0x4E00 \<le> c \<and> c \<le> 0x9FFF) (rev (dropWhile is_space (rev (dropWhile is_space s))))
        = list_ex (\<lambda>c. 0x4E00 \<le> c \<and> c \<le> 0x9FFF) (rev (dropWhile is_space s))"
    using list_ex_dropWhile [of is_space "\<lambda>c. 0x4E00 \<le> c \<and> c \<le> 0x9FFF" "rev (dropWhile is_space s)"]
      space_not_cjk
    by (simp add: list_ex_iff)
  then show ?thesis
    using list_ex_dropWhile [of is_space "\<lambda>c. 0x4E00 \<le> c \<and> c \<le> 0x9FFF" s] space_not_cjk
    by (simp add: contains_cjk_def strip_def lstrip_def rstrip_def list_ex_iff)
qed

lemma contains_cjk_append: "contains_cjk (s @ t) = (contains_cjk s \<or> contains_cjk t)"
  by (auto simp: contains_cjk_def list_ex_iff)

lemma contains_cjk_Nil: "\<not> contains_cjk []"
  by (simp add: contains_cjk_def)

lemma should_use_openrouter_iff:
  "should_use_openrouter C entry =
     (OPENROUTER_FORCE C \<or> \<not> (contains_cjk (title entry) \<or> contains_cjk (description entry)))"
proof -
  let ?text = "strip (title entry @ [0x20] @ description entry)"
  have cjk: "contains_cjk ?text = (contains_cjk (title entry) \<or> contains_cjk (description entry))"
    unfolding contains_cjk_strip by (simp add: contains_cjk_def)
  show ?thesis
  proof (cases "?text = []")
    case True
    with cjk contains_cjk_Nil have "\<not> (contains_cjk (title entry) \<or> contains_cjk (description entry))"
      by metis
    with True show ?thesis by (simp add: should_use_openrouter_def)
  next
    case False
    with cjk show ?thesis by (simp add: should_use_openrouter_def Let_def)
  qed
qed

subsection \<open>The local fallback summarizer\<close>

lemma search_None: "(search_terminator s = None) = (\<not> list_ex is_terminator s)"
  by (induction s) auto

lemma search_Some:
  "search_terminator s = Some e \<Longrightarrow>
     1 \<le> e \<and> e \<le> length s \<and> is_terminator (s ! (e - 1)) \<and> \<not> list_ex is_terminator (take (e - 1) s)"
proof (induction s arbitrary: e)
  case Nil
  then show ?case by simp
next
  case (Cons c cs)
  show ?case
  proof (cases "is_terminator c")
    case True
    with Cons.prems show ?thesis by auto
  next
    case False
    with Cons.prems obtain e' where e': "search_terminator cs = Some e'" "e = Suc e'"
      by auto
    from Cons.IH [OF e'(1)] False e'(2) show ?thesis
      by (cases e') auto
  qed
qed

lemma length_rstrip: "length (rstrip s) \<le> length s"
  using length_dropWhile_le [of is_space "rev s"] by (simp add: rstrip_def)

lemma butlast_terminator_free:
  assumes "s \<noteq> []"
  shows "(\<not> list_ex is_terminator (butlast s)) =
         (search_terminator s = None \<or> search_terminator s = Some (length s))"
proof (cases "search_terminator s")
  case None
  then have "\<not> list_ex is_terminator s" by (simp add: search_None)
  then have "\<not> list_ex is_terminator (butlast s)"
    by (auto simp: list_ex_iff dest: in_set_butlastD)
  with None show ?thesis by simp
next
  case (Some e)
  from search_Some [OF Some] have e: "1 \<le> e" "e \<le> length s" "is_terminator (s ! (e - 1))"
    "\<not> list_ex is_terminator (take (e - 1) s)" by auto
  show ?thesis
  proof (cases "e = length s")
    case True
    with e(4) assms have "\<not> list_ex is_terminator (butlast s)"
      by (simp add: butlast_conv_take)
    with Some True show ?thesis by simp
  next
    case False
    with e have lt: "e - 1 < length (butlast s)" by simp
    then have "butlast s ! (e - 1) = s ! (e - 1)"
      by (simp add: nth_butlast)
    with e(3) lt have "list_ex is_terminator (butlast s)"
      unfolding list_ex_iff using nth_mem by metis
    with Some False show ?thesis by simp
  qed
qed

text \<open>
  Claim C7, as amended. For a body that is not empty after stripping, a non-empty title
  and \<open>max_chars\<close> of at least one: the title is put before the candidate exactly when
  the candidate is the whole stripped body, that is, when the stripped body has at most
  \<open>max_chars\<close> characters and no sentence terminator before its last character.
  Otherwise the result is the label followed by the candidate alone: the text up to
  and including the first terminator when that has at most \<open>max_chars\<close> characters,
  else the first \<open>max_chars - 1\<close> characters, right-stripped, and an ellipsis.
\<close>

theorem local_summary_title_rule:
  assumes mc: "1 \<le> max_chars" and t: "title_text \<noteq> []" and clean: "strip body \<noteq> []"
  shows "local_summary (Some body) (Some title_text) max_chars =
    (if int (length (strip body)) \<le> max_chars \<and> \<not> list_ex is_terminator (butlast (strip body))
     then LABEL @ strip title_text @ DASH @ strip body
     else case search_terminator (strip body) of
            Some e \<Rightarrow>
              if int e \<le> max_chars then LABEL @ take e (strip body)
              else LABEL @ rstrip (take (nat (max_chars - 1)) (strip body)) @ ELLIPSIS
          | None \<Rightarrow> LABEL @ rstrip (take (nat (max_chars - 1)) (strip body)) @ ELLIPSIS)"
proof -
  let ?clean = "strip body"
  let ?short = "rstrip (take (nat (max_chars - 1)) ?clean) @ ELLIPSIS"
  have short_len: "int (length ?short) \<le> max_chars"
    using length_rstrip [of "take (nat (max_chars - 1)) ?clean"] mc
    by (auto simp: ELLIPSIS_def)
  have short_ne: "?short \<noteq> ?clean" if "max_chars < int (length ?clean)"
  proof
    assume "?short = ?clean"
    then have "length ?short = length ?clean" by (rule arg_cong)
    with short_len that show False by linarith
  qed
  show ?thesis
  proof (cases "search_terminator ?clean")
    case None
    then have free: "\<not> list_ex is_terminator (butlast ?clean)"
      using butlast_terminator_free [OF clean] by simp
    show ?thesis
    proof (cases "max_chars < int (length ?clean)")
      case True
      with short_ne have "?short \<noteq> ?clean" by simp
      with None True mc clean t show ?thesis
        by (simp add: local_summary_def Let_def py_prefix_def)
    next
      case False
      with None free clean t show ?thesis
        by (simp add: local_summary_def Let_def)
    qed
  next
    case (Some e)
    from search_Some [OF Some] have e: "1 \<le> e" "e \<le> length ?clean" by auto
    have cond: "(\<not> list_ex is_terminator (butlast ?clean)) = (e = length ?clean)"
      using butlast_terminator_free [OF clean] Some by simp
    show ?thesis
    proof (cases "max_chars < int e")
      case True
      with e have long: "max_chars < int (length ?clean)" by simp
      with short_ne have ne: "?short \<noteq> ?clean" by simp
      from True mc have "nat (max_chars - 1) \<le> e" by linarith
      then have "take (nat (max_chars - 1)) (take e ?clean) = take (nat (max_chars - 1)) ?clean"
        by (simp add: min_def)
      with Some True long ne e mc clean t show ?thesis
        by (simp add: local_summary_def Let_def py_prefix_def)
    next
      case False
      show ?thesis
      proof (cases "e = length ?clean")
        case True
        with Some False cond e clean t show ?thesis
          by (simp add: local_summary_def Let_def)
      next
        case False2: False
        with e have "take e ?clean \<noteq> ?clean"
          by (metis length_take min.absorb2 nat_less_le order.strict_iff_not le_refl take_all_iff)
        with Some False False2 cond e clean t show ?thesis
          by (simp add: local_summary_def Let_def)
      qed
    qed
  qed
qed

lemmas str_eval = asc_def strip_def lstrip_def rstrip_def is_space_def is_terminator_def
  LABEL_def DASH_def ELLIPSIS_def NO_SUMMARY_def

text \<open>
  Claim C7 as stated fails: in the body \<open>Hi.\<close> a terminator is found, and the title is
  put before the sentence all the same, because the sentence is the whole body.
\<close>

theorem local_summary_terminator_last_counterexample:
  "search_terminator (strip (asc ''Hi.'')) = Some 3
   \<and> local_summary (Some (asc ''Hi.'')) (Some (asc ''T'')) 200 = LABEL @ asc ''T'' @ DASH @ asc ''Hi.''"
  by (simp add: local_summary_def str_eval)

theorem local_summary_title_rule_witness:
  "(1::int) \<le> 200 \<and> asc ''AI news'' \<noteq> []
   \<and> strip (asc ''AI is advancing fast. More details follow.'') \<noteq> []
   \<and> local_summary (Some (asc ''AI is advancing fast. More details follow.''))
        (Some (asc ''AI news'')) 200 = LABEL @ asc ''AI is advancing fast.''"
  using local_summary_title_rule [of 200 "asc ''AI news''" "asc ''AI is advancing fast. More details follow.''"]
  by (simp add: str_eval)

subsection \<open>Ranking and de-duplication\<close>

lemma sorted_reverse_set: "set (sorted_reverse entries) = set entries"
  by (simp add: sorted_reverse_def)

lemma sorted_reverse_sorted:
  "sorted_wrt (\<lambda>a b. published_key b \<le> published_key a) (sorted_reverse entries)"
proof -
  have "sorted (map published_key (sort_key published_key (rev entries)))"
    by (rule sorted_sort_key)
  then have "sorted_wrt (\<lambda>a b. published_key a \<le> published_key b)
               (sort_key published_key (rev entries))"
    by (simp add: sorted_wrt_map)
  then show ?thesis
    by (simp add: sorted_reverse_def sorted_wrt_rev)
qed

lemma sorted_reverse_stable:
  "filter (\<lambda>e. published_key e = k) (sorted_reverse entries)
     = filter (\<lambda>e. published_key e = k) entries"
proof -
  have "filter (\<lambda>e. published_key e = k) (sorted_reverse entries)
        = rev (filter (\<lambda>e. published_key e = k) (sort_key published_key (rev entries)))"
    by (simp add: sorted_reverse_def rev_filter)
  also have "\<dots> = rev (filter (\<lambda>e. published_key e = k) (rev entries))"
    by (simp add: sort_key_stable)
  also have "\<dots> = filter (\<lambda>e. published_key e = k) entries"
    by (simp add: rev_filter)
  finally show ?thesis .
qed

lemma dedup_loop_nths:
  "dedup_loop seen deduped max_items es =
     deduped @ take (nat (max 1 (max_items - int (length deduped))))
       (nths es {i. dedup_key (es ! i) \<notin> seen \<and> (\<forall>j<i. dedup_key (es ! j) \<noteq> dedup_key (es ! i))})"
proof (induction es arbitrary: seen deduped)
  case Nil
  then show ?case by simp
next
  case (Cons e rest)
  let ?A = "\<lambda>sn xs. {i. dedup_key (xs ! i) \<notin> sn \<and> (\<forall>j<i. dedup_key (xs ! j) \<noteq> dedup_key (xs ! i))}"
  show ?case
  proof (cases "dedup_key e \<in> seen")
    case True
    then have "{j. Suc j \<in> ?A seen (e # rest)} = ?A seen rest"
      by (auto simp: less_Suc_eq_0_disj)
    with True Cons.IH [of seen deduped] show ?thesis
      by (simp add: nths_Cons)
  next
    case False
    then have shift: "{j. Suc j \<in> ?A seen (e # rest)} = ?A (insert (dedup_key e) seen) rest"
      by (auto simp: less_Suc_eq_0_disj)
    show ?thesis
    proof (cases "max_items \<le> int (length deduped) + 1")
      case True
      then have "max 1 (max_items - int (length deduped)) = 1"
        by linarith
      then have "nat (max 1 (max_items - int (length deduped))) = Suc 0"
        by simp
      with True False show ?thesis
        by (simp add: nths_Cons)
    next
      case False2: False
      then have "max 1 (max_items - int (length deduped)) = max_items - int (length deduped)"
        and "max 1 (max_items - int (length (deduped @ [e]))) = max_items - int (length deduped) - 1"
        by auto
      then have "nat (max 1 (max_items - int (length deduped)))
                 = Suc (nat (max 1 (max_items - int (length (deduped @ [e])))))"
        using False2 by simp
      with False False2 shift Cons.IH [of "insert (dedup_key e) seen" "deduped @ [e]"] show ?thesis
        by (simp add: nths_Cons)
    qed
  qed
qed

lemma dedup_loop_sorted:
  "sorted_wrt P (deduped @ es) \<Longrightarrow> sorted_wrt P (dedup_loop seen deduped max_items es)"
proof (induction es arbitrary: seen deduped)
  case Nil
  then show ?case by simp
next
  case (Cons e rest)
  from Cons.prems have skip: "sorted_wrt P (deduped @ rest)"
    by (auto simp: sorted_wrt_append)
  from Cons.prems have keep: "sorted_wrt P ((deduped @ [e]) @ rest)" by simp
  from Cons.prems have stop: "sorted_wrt P (deduped @ [e])"
    by (auto simp: sorted_wrt_append)
  from Cons.IH [OF skip] Cons.IH [OF keep] stop show ?case by simp
qed

lemma dedup_loop_distinct:
  "distinct (map dedup_key deduped) \<Longrightarrow> dedup_key ` set deduped \<subseteq> seen \<Longrightarrow>
     distinct (map dedup_key (dedup_loop seen deduped max_items es))"
proof (induction es arbitrary: seen deduped)
  case Nil
  then show ?case by simp
next
  case (Cons e rest)
  show ?case
  proof (cases "dedup_key e \<in> seen")
    case True
    with Cons show ?thesis by simp
  next
    case False
    with Cons.prems have d: "distinct (map dedup_key (deduped @ [e]))" by auto
    from Cons.prems have s: "dedup_key ` set (deduped @ [e]) \<subseteq> insert (dedup_key e) seen" by auto
    from False d Cons.IH [OF d s] show ?thesis by simp
  qed
qed

lemma dedup_loop_length:
  "int (length deduped) < max_items \<or> deduped = [] \<Longrightarrow>
     int (length (dedup_loop seen deduped max_items es)) \<le> max 1 max_items"
proof (induction es arbitrary: seen deduped)
  case Nil
  then show ?case by auto
next
  case (Cons e rest)
  show ?case
  proof (cases "dedup_key e \<in> seen")
    case True
    with Cons show ?thesis by simp
  next
    case False
    show ?thesis
    proof (cases "max_items \<le> int (length (deduped @ [e]))")
      case True
      with False Cons.prems show ?thesis by auto
    next
      case False2: False
      then have "int (length (deduped @ [e])) < max_items \<or> deduped @ [e] = []" by simp
      from Cons.IH [OF this] False False2 show ?thesis by simp
    qed
  qed
qed

lemma dedup_loop_newest:
  assumes "sorted_wrt (\<lambda>a b. published_key b \<le> published_key a) es"
    and "e \<in> set (dedup_loop seen deduped max_items es)"
  shows "e \<in> set deduped \<or>
         (e \<in> set es \<and> dedup_key e \<notin> seen \<and>
          (\<forall>e' \<in> set es. dedup_key e' = dedup_key e \<longrightarrow> published_key e' \<le> published_key e))"
  using assms
proof (induction es arbitrary: seen deduped)
  case Nil
  then show ?case by simp
next
  case (Cons x rest)
  from Cons.prems(1) have sr: "sorted_wrt (\<lambda>a b. published_key b \<le> published_key a) rest"
    and top: "\<forall>e' \<in> set rest. published_key e' \<le> published_key x" by auto
  show ?case
  proof (cases "dedup_key x \<in> seen")
    case True
    with Cons.prems(2) have "e \<in> set (dedup_loop seen deduped max_items rest)" by simp
    from Cons.IH [OF sr this] True show ?thesis by auto
  next
    case False
    show ?thesis
    proof (cases "max_items \<le> int (length (deduped @ [x]))")
      case True
      with False Cons.prems(2) have "e \<in> set deduped \<or> e = x" by auto
      with False top show ?thesis by auto
    next
      case False2: False
      with False Cons.prems(2)
      have "e \<in> set (dedup_loop (insert (dedup_key x) seen) (deduped @ [x]) max_items rest)"
        by simp
      from Cons.IH [OF sr this] False top show ?thesis by auto
    qed
  qed
qed

lemmas feed_eval = item_x_old_def item_x_new_def item_x_mirror_def entry_x_old_def
  entry_x_new_def entry_x_mirror_def strip_html_def trim_whitespace_def strip_def lstrip_def
  rstrip_def is_space_def asc_def sorted_reverse_def published_key_def dedup_key_def
  baseline_def

lemma collect_three:
  "collect_entries (\<lambda>t. t) (int 3000 - 24 * 3600000000)
     [FeedParsed [item_x_old, item_x_mirror], FeedParsed [item_x_new]]
   = [entry_x_old, entry_x_mirror, entry_x_new]"
  by (simp add: feed_eval)

lemma fetch_three:
  "fetch_feed_entries (\<lambda>t. t) [FeedParsed [item_x_old, item_x_mirror], FeedParsed [item_x_new]]
     3000 24 20 = [entry_x_new, entry_x_mirror]"
  by (simp add: fetch_feed_entries_def feed_eval)

text \<open>
  Claim C3 as stated fails: of two entries with the same title and link, the one that
  comes first in the input is dropped and the later one is kept when the later one is
  more recent.
\<close>

theorem fetch_feed_entries_first_in_input_counterexample:
  "collect_entries (\<lambda>t. t) (int 3000 - 24 * 3600000000)
     [FeedParsed [item_x_old], FeedParsed [item_x_new]] = [entry_x_old, entry_x_new]
   \<and> dedup_key entry_x_old = dedup_key entry_x_new
   \<and> fetch_feed_entries (\<lambda>t. t) [FeedParsed [item_x_old], FeedParsed [item_x_new]] 3000 24 20
       = [entry_x_new]"
  by (simp add: fetch_feed_entries_def feed_eval)

text \<open>
  Claim C4 at the input \<open>max_items = 0\<close> with one entry: the loop appends the entry
  before it compares the length with the cap, so the result has one entry, more than
  the cap allows.
\<close>

theorem fetch_feed_entries_cap_zero:
  "fetch_feed_entries (\<lambda>t. t) [FeedParsed [item_x_old]] 3000 24 0 = [entry_x_old]
   \<and> \<not> int (length (fetch_feed_entries (\<lambda>t. t) [FeedParsed [item_x_old]] 3000 24 0)) \<le> 0"
  by (simp add: fetch_feed_entries_def feed_eval)

text \<open>
  What holds of the result for every input: it is sorted by the key in descending order,
  no two entries share a title and link, and its length is at most the cap or one,
  whichever is greater.
\<close>

lemma fetch_feed_entries_ranked:
  "sorted_wrt (\<lambda>a b. published_key b \<le> published_key a)
     (fetch_feed_entries html_of feeds now_dt lookback_hours max_items)
   \<and> distinct (map dedup_key (fetch_feed_entries html_of feeds now_dt lookback_hours max_items))
   \<and> int (length (fetch_feed_entries html_of feeds now_dt lookback_hours max_items))
       \<le> max 1 max_items"
  using dedup_loop_sorted [of "\<lambda>a b. published_key b \<le> published_key a" "[]"]
    sorted_reverse_sorted dedup_loop_distinct [of "[]" "{}"] dedup_loop_length [of "[]"]
  by (simp add: fetch_feed_entries_def Let_def)

text \<open>
  In the result, whatever follows an entry without a timestamp has the minimum sort key:
  entries without a timestamp come last.
\<close>

lemma fetch_feed_entries_missing_last:
  assumes "i < j"
    and "j < length (fetch_feed_entries html_of feeds now_dt lookback_hours max_items)"
    and "published_at (fetch_feed_entries html_of feeds now_dt lookback_hours max_items ! i) = None"
  shows "published_key (fetch_feed_entries html_of feeds now_dt lookback_hours max_items ! j)
         = baseline"
proof -
  let ?out = "fetch_feed_entries html_of feeds now_dt lookback_hours max_items"
  from fetch_feed_entries_ranked [of html_of feeds now_dt lookback_hours max_items]
  have "sorted_wrt (\<lambda>a b. published_key b \<le> published_key a) ?out" by blast
  with assms(1,2) have "published_key (?out ! j) \<le> published_key (?out ! i)"
    by (simp add: sorted_wrt_iff_nth_less)
  with assms(3) show ?thesis
    by (simp add: published_key_def baseline_def)
qed

text \<open>
  Claim C3, as amended. For a cap of at least one, \<open>fetch_feed_entries\<close> ranks the
  collected entries by \<open>published_at\<close> in descending order (a stable sort: the ranked list
  is sorted and entries with equal keys keep their input order) and then drops an entry
  exactly when an entry with the same title and link stands earlier in the ranked list,
  or when \<open>max_items\<close> entries have been kept already. Entries with equal title and
  different links have different keys, so neither counts as a duplicate of the other.
\<close>

theorem fetch_feed_entries_dedup_rule:
  assumes "1 \<le> max_items"
  shows
    "(let entries = collect_entries html_of (int now_dt - lookback_hours * 3600000000) feeds;
          ranked = sorted_reverse entries
      in fetch_feed_entries html_of feeds now_dt lookback_hours max_items
           = take (nat max_items)
               (nths ranked {i. \<forall>j<i. dedup_key (ranked ! j) \<noteq> dedup_key (ranked ! i)})
         \<and> sorted_wrt (\<lambda>a b. published_key b \<le> published_key a) ranked
         \<and> (\<forall>k. filter (\<lambda>e. published_key e = k) ranked
                  = filter (\<lambda>e. published_key e = k) entries))"
  using assms dedup_loop_nths [of "{}" "[]" max_items] sorted_reverse_sorted
    sorted_reverse_stable
  by (simp add: fetch_feed_entries_def Let_def max_def)

theorem fetch_feed_entries_dedup_rule_witness:
  "(1::int) \<le> 20
   \<and> fetch_feed_entries (\<lambda>t. t)
        [FeedParsed [item_x_old, item_x_mirror], FeedParsed [item_x_new]] 3000 24 20
       = [entry_x_new, entry_x_mirror]
   \<and> (let entries = collect_entries (\<lambda>t. t) (int 3000 - 24 * 3600000000)
                       [FeedParsed [item_x_old, item_x_mirror], FeedParsed [item_x_new]];
            ranked = sorted_reverse entries
        in take (nat 20)
             (nths ranked {i. \<forall>j<i. dedup_key (ranked ! j) \<noteq> dedup_key (ranked ! i)}))
       = [entry_x_new, entry_x_mirror]"
proof -
  have cap: "(1::int) \<le> 20" by simp
  from fetch_feed_entries_dedup_rule [OF cap, of "\<lambda>t. t" 3000 24
      "[FeedParsed [item_x_old, item_x_mirror], FeedParsed [item_x_new]]"]
  have "fetch_feed_entries (\<lambda>t. t)
          [FeedParsed [item_x_old, item_x_mirror], FeedParsed [item_x_new]] 3000 24 20
        = (let entries = collect_entries (\<lambda>t. t) (int 3000 - 24 * 3600000000)
                       [FeedParsed [item_x_old, item_x_mirror], FeedParsed [item_x_new]];
               ranked = sorted_reverse entries
           in take (nat 20)
                (nths ranked {i. \<forall>j<i. dedup_key (ranked ! j) \<noteq> dedup_key (ranked ! i)}))"
    unfolding Let_def by (rule conjunct1)
  with cap fetch_three show ?thesis by (simp only: simp_thms)
qed

lemma dedup_loop_prefix: "set deduped \<subseteq> set (dedup_loop seen deduped max_items es)"
  by (simp add: dedup_loop_nths)

lemma dedup_loop_covers:
  assumes "int (length (dedup_loop seen deduped max_items es)) < max_items"
    and "e \<in> set es"
  shows "dedup_key e \<in> seen
       \<or> (\<exists>k \<in> set (dedup_loop seen deduped max_items es). dedup_key k = dedup_key e)"
  using assms
proof (induction es arbitrary: seen deduped)
  case Nil
  then show ?case by simp
next
  case (Cons x rest)
  show ?case
  proof (cases "dedup_key x \<in> seen")
    case True
    with Cons.prems(1) have len: "int (length (dedup_loop seen deduped max_items rest)) < max_items"
      by simp
    show ?thesis
    proof (cases "e = x")
      case True
      with \<open>dedup_key x \<in> seen\<close> show ?thesis by simp
    next
      case False
      with Cons.prems(2) have "e \<in> set rest" by simp
      from Cons.IH [OF len this] \<open>dedup_key x \<in> seen\<close> show ?thesis by simp
    qed
  next
    case False
    show ?thesis
    proof (cases "max_items \<le> int (length (deduped @ [x]))")
      case True
      with False Cons.prems(1) show ?thesis by simp
    next
      case False2: False
      let ?next = "dedup_loop (insert (dedup_key x) seen) (deduped @ [x]) max_items rest"
      from False False2 have step: "dedup_loop seen deduped max_items (x # rest) = ?next"
        by simp
      with Cons.prems(1) have len: "int (length ?next) < max_items" by simp
      have x_kept: "x \<in> set ?next"
        using dedup_loop_prefix [of "deduped @ [x]" "insert (dedup_key x) seen" max_items rest]
        by auto
      show ?thesis
      proof (cases "dedup_key e = dedup_key x")
        case True
        with x_kept step show ?thesis by auto
      next
        case False3: False
        with Cons.prems(2) have "e \<in> set rest" by auto
        from Cons.IH [OF len this] False3 step show ?thesis by auto
      qed
    qed
  qed
qed

lemma dedup_loop_covers_keys:
  assumes "int (card (dedup_key ` set es)) \<le> max_items"
  shows "\<forall>e \<in> set es. \<exists>k \<in> set (dedup_loop {} [] max_items es). dedup_key k = dedup_key e"
proof -
  let ?firsts = "nths es {i. dedup_key (es ! i) \<notin> {}
                   \<and> (\<forall>j<i. dedup_key (es ! j) \<noteq> dedup_key (es ! i))}"
  let ?all = "dedup_loop {} [] (int (length es) + 1) es"
  have len_firsts: "length ?firsts \<le> length es"
    by (simp add: length_nths) (metis (no_types, lifting) card_mono finite_Collect_less_nat
        Collect_mono card_Collect_less_nat)
  have all: "?all = ?firsts"
    using dedup_loop_nths [of "{}" "[]" "int (length es) + 1" es] len_firsts by simp
  have "int (length ?all) < int (length es) + 1"
    using all len_firsts by simp
  then have covers: "\<forall>e \<in> set es. \<exists>k \<in> set ?all. dedup_key k = dedup_key e"
    using dedup_loop_covers [of "{}" "[]" "int (length es) + 1" es] by simp
  have "set ?all \<subseteq> set es"
    unfolding all by (rule set_nths_subset)
  with covers have keys: "dedup_key ` set ?all = dedup_key ` set es"
    by (auto simp: image_iff) metis
  have "distinct (map dedup_key ?all)"
    by (rule dedup_loop_distinct) simp_all
  then have "length ?all = card (dedup_key ` set ?all)"
    by (metis distinct_card length_map set_map)
  with keys assms have "length ?firsts \<le> nat (max 1 max_items)"
    unfolding all by simp
  then have "dedup_loop {} [] max_items es = ?firsts"
    using dedup_loop_nths [of "{}" "[]" max_items es] by simp
  with all have "dedup_loop {} [] max_items es = ?all" by simp
  with covers show ?thesis by simp
qed

text \<open>
  Claim C8. Take any collected entry. Every entry that \<open>fetch_feed_entries\<close> returns with
  the same title and link is itself a collected entry and has a sort key (its
  \<open>published_at\<close>, or the minimum when it has none) that is not smaller; the result holds
  at most one entry for each title and link; and when the cap does not cut the result
  short (the result is shorter than the cap, or the collected entries have at most
  \<open>max_items\<close> different pairs of title and link), the result does hold an entry with
  that title and link. So of several entries that share a title and link exactly one
  is kept, and it is one with the greatest \<open>published_at\<close> among them.
\<close>

theorem fetch_feed_entries_keeps_newest:
  assumes "other \<in> set (collect_entries html_of (int now_dt - lookback_hours * 3600000000) feeds)"
  shows "(\<forall>kept \<in> set (fetch_feed_entries html_of feeds now_dt lookback_hours max_items).
            dedup_key kept = dedup_key other \<longrightarrow>
              published_key other \<le> published_key kept
              \<and> kept \<in> set (collect_entries html_of
                               (int now_dt - lookback_hours * 3600000000) feeds))
    \<and> distinct (map dedup_key (fetch_feed_entries html_of feeds now_dt lookback_hours max_items))
    \<and> (int (length (fetch_feed_entries html_of feeds now_dt lookback_hours max_items)) < max_items
          \<longrightarrow> (\<exists>kept \<in> set (fetch_feed_entries html_of feeds now_dt lookback_hours max_items).
                 dedup_key kept = dedup_key other))
    \<and> (int (card (dedup_key ` set (collect_entries html_of
                  (int now_dt - lookback_hours * 3600000000) feeds))) \<le> max_items
          \<longrightarrow> (\<exists>kept \<in> set (fetch_feed_entries html_of feeds now_dt lookback_hours max_items).
                 dedup_key kept = dedup_key other))"
proof (intro conjI ballI impI)
  let ?entries = "collect_entries html_of (int now_dt - lookback_hours * 3600000000) feeds"
  let ?out = "fetch_feed_entries html_of feeds now_dt lookback_hours max_items"
  have out: "?out = dedup_loop {} [] max_items (sorted_reverse ?entries)"
    by (simp add: fetch_feed_entries_def Let_def)
  {
    fix kept
    assume kept: "kept \<in> set ?out" and same: "dedup_key kept = dedup_key other"
    from kept out have "kept \<in> set (dedup_loop {} [] max_items (sorted_reverse ?entries))"
      by simp
    from dedup_loop_newest [OF sorted_reverse_sorted this]
    have mem: "kept \<in> set ?entries"
      and top: "\<forall>e' \<in> set ?entries. dedup_key e' = dedup_key kept
                  \<longrightarrow> published_key e' \<le> published_key kept"
      by (simp_all add: sorted_reverse_set)
    from top assms same show "published_key other \<le> published_key kept" by simp
    from mem show "kept \<in> set ?entries" .
  }
  show "distinct (map dedup_key ?out)"
    using fetch_feed_entries_ranked by blast
  {
    assume "int (length ?out) < max_items"
    with out have len: "int (length (dedup_loop {} [] max_items (sorted_reverse ?entries)))
                        < max_items" by simp
    from assms have "other \<in> set (sorted_reverse ?entries)"
      by (simp add: sorted_reverse_set)
    from dedup_loop_covers [OF len this] out
    show "\<exists>kept \<in> set ?out. dedup_key kept = dedup_key other" by simp
  }
  {
    assume "int (card (dedup_key ` set ?entries)) \<le> max_items"
    then have "int (card (dedup_key ` set (sorted_reverse ?entries))) \<le> max_items"
      by (simp add: sorted_reverse_set)
    from dedup_loop_covers_keys [OF this] assms out
    show "\<exists>kept \<in> set ?out. dedup_key kept = dedup_key other"
      by (simp add: sorted_reverse_set)
  }
qed

theorem fetch_feed_entries_keeps_newest_witness:
  "entry_x_old \<in> set (collect_entries (\<lambda>t. t) (int 3000 - 24 * 3600000000)
        [FeedParsed [item_x_old, item_x_mirror], FeedParsed [item_x_new]])
   \<and> int (length (fetch_feed_entries (\<lambda>t. t)
        [FeedParsed [item_x_old, item_x_mirror], FeedParsed [item_x_new]] 3000 24 20)) < 20
   \<and> int (card (dedup_key ` set (collect_entries (\<lambda>t. t) (int 3000 - 24 * 3600000000)
        [FeedParsed [item_x_old, item_x_mirror], FeedParsed [item_x_new]]))) \<le> 20
   \<and> entry_x_new \<in> set (fetch_feed_entries (\<lambda>t. t)
        [FeedParsed [item_x_old, item_x_mirror], FeedParsed [item_x_new]] 3000 24 20)
   \<and> dedup_key entry_x_new = dedup_key entry_x_old
   \<and> published_key entry_x_old \<le> published_key entry_x_new
   \<and> (\<exists>kept \<in> set (fetch_feed_entries (\<lambda>t. t)
        [FeedParsed [item_x_old, item_x_mirror], FeedParsed [item_x_new]] 3000 24 20).
          dedup_key kept = dedup_key entry_x_old)"
proof -
  let ?feeds = "[FeedParsed [item_x_old, item_x_mirror], FeedParsed [item_x_new]]"
  have other: "entry_x_old \<in> set (collect_entries (\<lambda>t. t) (int 3000 - 24 * 3600000000) ?feeds)"
    unfolding collect_three by simp
  have short: "int (length (fetch_feed_entries (\<lambda>t. t) ?feeds 3000 24 20)) < 20"
    unfolding fetch_three by simp
  have few: "int (card (dedup_key ` set (collect_entries (\<lambda>t. t)
                 (int 3000 - 24 * 3600000000) ?feeds))) \<le> 20"
    unfolding collect_three
    by (simp add: dedup_key_def entry_x_old_def entry_x_new_def entry_x_mirror_def asc_def
        card_insert_if insert_commute)
  have kept: "entry_x_new \<in> set (fetch_feed_entries (\<lambda>t. t) ?feeds 3000 24 20)"
    unfolding fetch_three by simp
  have same: "dedup_key entry_x_new = dedup_key entry_x_old"
    by (simp add: dedup_key_def entry_x_old_def entry_x_new_def)
  note rule = fetch_feed_entries_keeps_newest [OF other, of 20]
  from rule kept same have newest: "published_key entry_x_old \<le> published_key entry_x_new"
    by blast
  from rule few
  have "\<exists>k \<in> set (fetch_feed_entries (\<lambda>t. t) ?feeds 3000 24 20).
          dedup_key k = dedup_key entry_x_old"
    by blast
  with other short few kept same newest show ?thesis by blast
qed

subsection \<open>The enrichment policy\<close>

lemma pace_client_calls: "client_calls (pace slack w) = client_calls w"
  by (simp add: pace_def sleep_def Let_def)

lemma openrouter_attempts_client_calls:
  "client_calls (snd (openrouter_attempts C prompt attempts w)) = client_calls w"
proof (induction attempts arbitrary: w)
  case Nil
  then show ?case by simp
next
  case (Cons attempt rest)
  show ?case
    by (simp add: Let_def Cons.IH pace_client_calls sleep_def
        split: post_outcome.splits option.splits sum.splits)
qed

lemma call_openrouter_client_calls:
  "client_calls (snd (call_openrouter C prompt w)) = client_calls w + 1"
  by (simp add: call_openrouter_def Let_def openrouter_attempts_client_calls)

lemma translate_and_summarize_client_calls:
  "client_calls (snd (translate_and_summarize C entry topic_label w)) = client_calls w + 1"
  by (simp add: translate_and_summarize_def Let_def call_openrouter_client_calls
      split: sum.splits)

lemma translate_and_summarize_frame:
  "fst (translate_and_summarize C entry topic_label w) = Inr entry' \<Longrightarrow> same_article entry' entry"
  by (auto simp: translate_and_summarize_def same_article_def Let_def split: sum.splits)

lemma same_article_refl: "same_article a a"
  by (simp add: same_article_def)

lemma same_article_trans: "same_article a b \<Longrightarrow> same_article b c \<Longrightarrow> same_article a c"
  by (simp add: same_article_def)

lemma should_use_openrouter_cong:
  "same_article a b \<Longrightarrow> should_use_openrouter C a = should_use_openrouter C b"
  by (simp add: should_use_openrouter_def same_article_def)

lemma enrich_loop_step:
  assumes "enrich_loop C topic_label (r # rest) enriched h w = (res, h', w')"
  shows "(\<exists>err. res = Inl err \<and> h' = h)
       \<or> (\<exists>e1 w1. enrich_loop C topic_label rest (enriched @ [r]) (h(r := e1)) w1 = (res, h', w')
             \<and> same_article e1 (h r)
             \<and> client_calls w1 = client_calls w + (if should_use_openrouter C (h r) then 1 else 0))"
proof (cases "should_use_openrouter C (h r)")
  case True
  show ?thesis
  proof (cases "fst (translate_and_summarize C (h r) topic_label w)")
    case (Inl err)
    with True assms have "res = Inl err \<and> h' = h" by (auto simp: Let_def)
    then show ?thesis by blast
  next
    case (Inr e1)
    from translate_and_summarize_frame [OF Inr] have frame: "same_article e1 (h r)" .
    from True Inr assms
    have "enrich_loop C topic_label rest (enriched @ [r]) (h(r := e1))
            (snd (translate_and_summarize C (h r) topic_label w)) = (res, h', w')"
      by (simp add: Let_def)
    with frame True translate_and_summarize_client_calls [of C "h r" topic_label w]
    show ?thesis by auto
  qed
next
  case False
  let ?e1 = "(h r)\<lparr>translation := Some (description_or_title (h r)),
                     summary := Some (local_summary (Some (description_or_title (h r)))
                                        (Some (title (h r))) 200),
                     kept_original := True\<rparr>"
  from False assms
  have "enrich_loop C topic_label rest (enriched @ [r]) (h(r := ?e1)) w = (res, h', w')"
    by (simp add: Let_def)
  moreover have "same_article ?e1 (h r)" by (simp add: same_article_def)
  ultimately show ?thesis using False by (intro disjI2 exI [of _ ?e1] exI [of _ w]) simp
qed

lemma enrich_loop_frame:
  "enrich_loop C topic_label refs enriched h w = (res, h', w') \<Longrightarrow>
     same_article (h' x) (h x) \<and> (x \<notin> set refs \<longrightarrow> h' x = h x)"
proof (induction refs arbitrary: enriched h w)
  case Nil
  then show ?case by (simp add: same_article_refl)
next
  case (Cons r rest)
  from enrich_loop_step [OF Cons.prems] show ?case
  proof
    assume "\<exists>err. res = Inl err \<and> h' = h"
    then show ?thesis by (auto simp: same_article_refl)
  next
    assume "\<exists>e1 w1. enrich_loop C topic_label rest (enriched @ [r]) (h(r := e1)) w1 = (res, h', w')
             \<and> same_article e1 (h r)
             \<and> client_calls w1 = client_calls w + (if should_use_openrouter C (h r) then 1 else 0)"
    then obtain e1 w1 where
      rec: "enrich_loop C topic_label rest (enriched @ [r]) (h(r := e1)) w1 = (res, h', w')"
      and e1: "same_article e1 (h r)"
      by blast
    from Cons.IH [OF rec]
    have ih: "same_article (h' x) ((h(r := e1)) x)"
      and out: "x \<notin> set rest \<longrightarrow> h' x = (h(r := e1)) x" by simp_all
    show ?thesis
    proof (cases "x = r")
      case True
      with ih e1 show ?thesis by (auto intro: same_article_trans)
    next
      case False
      with ih out show ?thesis by simp
    qed
  qed
qed

lemma enrich_loop_result:
  "enrich_loop C topic_label refs enriched h w = (Inr out, h', w') \<Longrightarrow>
     out = enriched @ refs
     \<and> client_calls w' =
         client_calls w + length (filter (\<lambda>r. should_use_openrouter C (h r)) refs)"
proof (induction refs arbitrary: enriched h w)
  case Nil
  then show ?case by simp
next
  case (Cons r rest)
  from enrich_loop_step [OF Cons.prems] obtain e1 w1 where
    rec: "enrich_loop C topic_label rest (enriched @ [r]) (h(r := e1)) w1 = (Inr out, h', w')"
    and e1: "same_article e1 (h r)"
    and calls: "client_calls w1 = client_calls w + (if should_use_openrouter C (h r) then 1 else 0)"
    by blast
  from e1 have "should_use_openrouter C ((h(r := e1)) x) = should_use_openrouter C (h x)" for x
    by (simp add: should_use_openrouter_cong)
  with Cons.IH [OF rec] calls show ?case by simp
qed

lemma enrich_loop_local:
  "\<forall>r \<in> set refs. \<not> should_use_openrouter C (h r) \<Longrightarrow>
     fst (enrich_loop C topic_label refs enriched h w) = Inr (enriched @ refs)
     \<and> snd (snd (enrich_loop C topic_label refs enriched h w)) = w"
proof (induction refs arbitrary: enriched h)
  case Nil
  then show ?case by simp
next
  case (Cons r rest)
  let ?e1 = "(h r)\<lparr>translation := Some (description_or_title (h r)),
                     summary := Some (local_summary (Some (description_or_title (h r)))
                                        (Some (title (h r))) 200),
                     kept_original := True\<rparr>"
  have "same_article ?e1 (h r)" by (simp add: same_article_def)
  then have "should_use_openrouter C ((h(r := ?e1)) x) = should_use_openrouter C (h x)" for x
    by (simp add: should_use_openrouter_cong)
  with Cons.prems have rest: "\<forall>x \<in> set rest. \<not> should_use_openrouter C ((h(r := ?e1)) x)"
    by simp
  from Cons.prems
  have step: "enrich_loop C topic_label (r # rest) enriched h w
              = enrich_loop C topic_label rest (enriched @ [r]) (h(r := ?e1)) w"
    by (simp add: Let_def)
  have "fst (enrich_loop C topic_label rest (enriched @ [r]) (h(r := ?e1)) w)
          = Inr ((enriched @ [r]) @ rest)
        \<and> snd (snd (enrich_loop C topic_label rest (enriched @ [r]) (h(r := ?e1)) w)) = w"
    by (rule Cons.IH [of "h(r := ?e1)" "enriched @ [r]", OF rest])
  then show ?case
    unfolding step by simp
qed

subsection \<open>The rate-limited client\<close>

lemma retry_attempts: "[0..<OPENROUTER_MAX_RETRIES] = [0, 1, 2, 3, 4]"
  by (simp add: OPENROUTER_MAX_RETRIES_def upt_rec)

lemmas world_eval = world0_def quiet_def completion_def config_with_def config_nokey_def
  net_failures_def net_failure_then_ok_def net_throttled_def net_list_reply_def
  net_error_body_def loads_list_def call_openrouter_def pace_def sleep_def
  OPENROUTER_MIN_INTERVAL_def OPENROUTER_MAX_CALLS_PER_MIN_def
  OPENROUTER_BACKOFF_BASE_def completion_content_def asc_def Let_def retry_attempts

lemma call_openrouter_without_key:
  "\<not> truthy_str (OPENROUTER_KEY C) \<Longrightarrow>
     call_openrouter C prompt w = (Inr JNull, w\<lparr>client_calls := client_calls w + 1\<rparr>)"
  by (simp add: call_openrouter_def Let_def)

lemma translate_and_summarize_unavailable:
  assumes "\<And>prompt. fst (call_openrouter C prompt w) = Inr JNull"
  shows "fst (translate_and_summarize C entry topic_label w)
         = Inr (entry\<lparr>translation := Some (description_or_title entry),
                        summary := Some PLACEHOLDER, kept_original := True\<rparr>)"
  by (simp add: translate_and_summarize_def Let_def assms reply_fields_def)

lemma openrouter_attempts_exhausted:
  assumes "\<And>n p. case outcome (net C n p) of
                     PostRaises \<Rightarrow> True
                   | PostReturns status body \<Rightarrow>
                       status = 429 \<or> (400 \<le> status \<and> status < 600) \<or> body = None"
  shows "fst (openrouter_attempts C prompt attempts w) = Inr JNull"
proof (induction attempts arbitrary: w)
  case Nil
  then show ?case by simp
next
  case (Cons attempt rest)
  from assms [of "length (posts w)" prompt] Cons.IH show ?case
    by (auto simp: Let_def split: post_outcome.splits option.splits)
qed

lemma pace_waits:
  "0 \<le> slack \<Longrightarrow>
     last_openrouter_call w + OPENROUTER_MIN_INTERVAL \<le> now (pace slack w)
     \<and> last_openrouter_call (pace slack w) = last_openrouter_call w"
  by (simp add: pace_def sleep_def Let_def)

lemma post_returns_sets_timestamp:
  assumes "outcome (net C (length (posts w)) prompt) = PostReturns status body"
  shows "last_openrouter_call (snd (openrouter_attempts C prompt [attempt] w))
         = now (pace (pace_slack (net C (length (posts w)) prompt)) w)
           + took (net C (length (posts w)) prompt)"
  using assms
  by (simp add: Let_def sleep_def split: option.splits sum.splits)

lemma post_raises_keeps_timestamp:
  assumes "outcome (net C (length (posts w)) prompt) = PostRaises"
  shows "last_openrouter_call (snd (openrouter_attempts C prompt [attempt] w))
         = last_openrouter_call w"
  using assms
  by (simp add: Let_def sleep_def pace_def)

text \<open>
  What the pacing does guarantee: every POST is issued at least the minimum interval
  after the timestamp recorded at that moment.
\<close>

lemma attempt_post_time:
  "posts (snd (openrouter_attempts C prompt [attempt] w))
     = posts w @ [now (pace (pace_slack (net C (length (posts w)) prompt)) w)]"
  by (simp add: Let_def sleep_def pace_def split: post_outcome.splits option.splits sum.splits)

lemma attempt_paced:
  assumes "0 \<le> pace_slack (net C (length (posts w)) prompt)"
  shows "last_openrouter_call w + OPENROUTER_MIN_INTERVAL
           \<le> last (posts (snd (openrouter_attempts C prompt [attempt] w)))"
  using pace_waits [OF assms, of w] unfolding attempt_post_time by simp

text \<open>
  Claim C1 at a run whose first POST raises a \<open>RequestException\<close> half a second after
  it was issued (a connection that drops while the body is read) and whose second POST
  succeeds: the backoff after the first attempt is 3.5 seconds, the recorded timestamp
  is still the initial one, so no pacing sleep follows and the second POST is issued 4
  seconds after the first, less than the minimum interval of 5 seconds.
\<close>

theorem call_openrouter_short_interval:
  "posts (snd (call_openrouter (config_with net_failure_then_ok) (asc ''p'') world0)) = [100, 104]
   \<and> (104 - 100 :: real) < OPENROUTER_MIN_INTERVAL"
  by (simp add: world_eval)

text \<open>
  Claim C2 at a run in which every POST raises a \<open>RequestException\<close> (a timeout, a
  connection error): \<open>call_openrouter\<close> makes five attempts and returns \<open>None\<close>, and
  \<open>_last_openrouter_call\<close> still has the value it had before the first attempt.
\<close>

theorem call_openrouter_failure_keeps_timestamp:
  "call_openrouter (config_with net_failures) (asc ''p'') world0
     = (Inr JNull, \<lparr> now = 198, last_openrouter_call = 0,
                     posts = [100, 104, 111, 124, 149], client_calls = 1 \<rparr>)
   \<and> last_openrouter_call world0 = 0"
  by (simp add: world_eval)

text \<open>
  Claim C5 at two responses with status 200: a completion whose text is the JSON list
  \<open>[1]\<close>, for which \<open>data.get\<close> raises \<open>AttributeError\<close>, and a JSON body without
  \<open>choices\<close>, for which \<open>call_openrouter\<close> raises \<open>KeyError\<close>. Neither exception is
  caught, so \<open>translate_and_summarize\<close> raises instead of returning the entry.
\<close>

theorem translate_and_summarize_raises:
  "fst (translate_and_summarize (config_with net_list_reply) entry_x_new (asc ''AI'') world0)
     = Inl AttributeError
   \<and> fst (translate_and_summarize (config_with net_error_body) entry_x_new (asc ''AI'') world0)
     = Inl KeyError"
  by (simp add: translate_and_summarize_def reply_fields_def extract_json_from_text_def world_eval)

text \<open>
  The part of claim C5 that holds: when every attempt fails with a timeout, a 429, an
  HTTP error status or a body that is not JSON, or when no key is configured,
  \<open>call_openrouter\<close> returns \<open>None\<close> and \<open>translate_and_summarize\<close> returns the entry
  with the original text, the placeholder summary and \<open>kept_original = True\<close>.
\<close>

lemma translate_and_summarize_exhausted:
  assumes "\<And>n p. case outcome (net C n p) of
                     PostRaises \<Rightarrow> True
                   | PostReturns status body \<Rightarrow>
                       status = 429 \<or> (400 \<le> status \<and> status < 600) \<or> body = None"
  shows "fst (translate_and_summarize C entry topic_label w)
         = Inr (entry\<lparr>translation := Some (description_or_title entry),
                        summary := Some PLACEHOLDER, kept_original := True\<rparr>)"
proof (rule translate_and_summarize_unavailable)
  fix prompt
  show "fst (call_openrouter C prompt w) = Inr JNull"
    using openrouter_attempts_exhausted [of C, OF assms]
    by (simp add: call_openrouter_def Let_def)
qed

lemma translate_and_summarize_without_key:
  assumes "\<not> truthy_str (OPENROUTER_KEY C)"
  shows "fst (translate_and_summarize C entry topic_label w)
         = Inr (entry\<lparr>translation := Some (description_or_title entry),
                        summary := Some PLACEHOLDER, kept_original := True\<rparr>)"
  by (rule translate_and_summarize_unavailable) (simp add: call_openrouter_without_key assms)

lemma translate_and_summarize_throttled:
  "fst (translate_and_summarize (config_with net_throttled) entry_x_new (asc ''AI'') world0)
   = Inr (entry_x_new\<lparr>translation := Some (description entry_x_new),
                       summary := Some PLACEHOLDER, kept_original := True\<rparr>)"
  using translate_and_summarize_exhausted [of "config_with net_throttled" entry_x_new "asc ''AI''" world0]
  by (simp add: config_with_def net_throttled_def quiet_def description_or_title_def
      entry_x_new_def asc_def)

lemma enrich_loop_without_key:
  assumes "\<not> truthy_str (OPENROUTER_KEY C)"
  shows "fst (enrich_loop C topic_label refs enriched h w) = Inr (enriched @ refs)"
proof (induction refs arbitrary: enriched h w)
  case Nil
  then show ?case by simp
next
  case (Cons r rest)
  show ?case
    by (simp add: Let_def Cons.IH translate_and_summarize_without_key [OF assms])
qed

lemma enrich_news_single_calls:
  "client_calls (snd (snd (enrich_news C [r] topic_label h w)))
     = client_calls w + (if should_use_openrouter C (h r) then 1 else 0)"
  by (simp add: enrich_news_def Let_def translate_and_summarize_client_calls split: sum.splits)

text \<open>
  Claim C6. \<open>should_use_openrouter\<close> holds exactly when the force override is set, or
  title and description together are empty, or they contain no character from U+4E00 to
  U+9FFF. For one entry, \<open>enrich_news\<close> enters \<open>call_openrouter\<close> once when it holds and
  not at all when it does not; in the latter case the entry gets the local fallback
  values and the state of the process (clock, timestamp, POST log) is unchanged. Over a
  list that is processed to its end, the number of calls of the client is the number of
  entries for which it holds.
\<close>

theorem enrichment_policy_decision:
  "(should_use_openrouter C entry
      = (OPENROUTER_FORCE C \<or> title entry @ description entry = []
         \<or> \<not> contains_cjk (title entry @ description entry)))
   \<and> client_calls (snd (snd (enrich_news C [r] topic_label h w)))
       = client_calls w + (if should_use_openrouter C (h r) then 1 else 0)
   \<and> (\<not> should_use_openrouter C (h r) \<longrightarrow>
        enrich_news C [r] topic_label h w
          = (Inr [r],
             h(r := (h r)\<lparr>translation := Some (description_or_title (h r)),
                            summary := Some (local_summary (Some (description_or_title (h r)))
                                               (Some (title (h r))) 200),
                            kept_original := True\<rparr>),
             w))
   \<and> (\<forall>out h' w'. enrich_news C refs topic_label h w = (Inr out, h', w') \<longrightarrow>
        client_calls w'
          = client_calls w + length (filter (\<lambda>x. should_use_openrouter C (h x)) refs))
   \<and> ((\<forall>x \<in> set refs. \<not> should_use_openrouter C (h x)) \<longrightarrow>
        snd (snd (enrich_news C refs topic_label h w)) = w)"
proof (intro conjI)
  show "should_use_openrouter C entry
      = (OPENROUTER_FORCE C \<or> title entry @ description entry = []
         \<or> \<not> contains_cjk (title entry @ description entry))"
    using contains_cjk_Nil by (auto simp: should_use_openrouter_iff contains_cjk_append)
  show "client_calls (snd (snd (enrich_news C [r] topic_label h w)))
       = client_calls w + (if should_use_openrouter C (h r) then 1 else 0)"
    by (rule enrich_news_single_calls)
  show "\<not> should_use_openrouter C (h r) \<longrightarrow>
        enrich_news C [r] topic_label h w
          = (Inr [r],
             h(r := (h r)\<lparr>translation := Some (description_or_title (h r)),
                            summary := Some (local_summary (Some (description_or_title (h r)))
                                               (Some (title (h r))) 200),
                            kept_original := True\<rparr>),
             w)"
    by (simp add: enrich_news_def Let_def)
  show "\<forall>out h' w'. enrich_news C refs topic_label h w = (Inr out, h', w') \<longrightarrow>
        client_calls w'
          = client_calls w + length (filter (\<lambda>x. should_use_openrouter C (h x)) refs)"
    using enrich_loop_result [of C topic_label refs "[]" h w]
    by (simp add: enrich_news_def)
  show "(\<forall>x \<in> set refs. \<not> should_use_openrouter C (h x)) \<longrightarrow>
        snd (snd (enrich_news C refs topic_label h w)) = w"
    using enrich_loop_local [of refs C h topic_label "[]" w]
    by (simp add: enrich_news_def)
qed

lemma store0_decisions:
  "should_use_openrouter config_nokey (store0 0) \<and> \<not> should_use_openrouter config_nokey (store0 1)"
  by (simp add: should_use_openrouter_iff store0_def config_nokey_def config_with_def
      entry_x_new_def entry_cjk_def contains_cjk_def asc_def)

theorem enrichment_policy_decision_witness:
  "should_use_openrouter config_nokey (store0 0)
   \<and> client_calls (snd (snd (enrich_news config_nokey [0] (asc ''AI'') store0 world0)))
       = client_calls world0 + 1
   \<and> \<not> should_use_openrouter config_nokey (store0 1)
   \<and> snd (snd (enrich_news config_nokey [1] (asc ''AI'') store0 world0)) = world0"
proof -
  from enrichment_policy_decision [of config_nokey entry_cjk 0 "asc ''AI''" store0 world0 "[1]"]
  have calls: "client_calls (snd (snd (enrich_news config_nokey [0] (asc ''AI'') store0 world0)))
       = client_calls world0 + (if should_use_openrouter config_nokey (store0 0) then 1 else 0)"
    and local: "(\<forall>x \<in> set [1]. \<not> should_use_openrouter config_nokey (store0 x)) \<longrightarrow>
        snd (snd (enrich_news config_nokey [1] (asc ''AI'') store0 world0)) = world0"
    by blast+
  from store0_decisions calls local show ?thesis by simp
qed

text \<open>
  Claim C9. \<open>enrich_news\<close> changes the entry objects in the store. Whatever it returns
  or raises, every object keeps its title, link, publication time, source and
  description, and objects that are not in the input list are not changed at all; when
  it returns, the result is the input list of references itself, in the same order. It
  does return when no API key is configured.
\<close>

theorem enrich_news_frame:
  assumes "enrich_news C entries topic_label h w = (res, h', w')"
  shows "(\<forall>x. title (h' x) = title (h x) \<and> link (h' x) = link (h x)
              \<and> published_at (h' x) = published_at (h x) \<and> source (h' x) = source (h x)
              \<and> description (h' x) = description (h x))
       \<and> (\<forall>x. x \<notin> set entries \<longrightarrow> h' x = h x)
       \<and> (\<forall>out. res = Inr out \<longrightarrow> out = entries)
       \<and> (\<not> truthy_str (OPENROUTER_KEY C) \<longrightarrow> res = Inr entries)"
proof (intro conjI allI)
  fix x
  from assms have loop: "enrich_loop C topic_label entries [] h w = (res, h', w')"
    by (simp add: enrich_news_def)
  from enrich_loop_frame [OF loop, of x]
  show "title (h' x) = title (h x)" "link (h' x) = link (h x)"
    "published_at (h' x) = published_at (h x)" "source (h' x) = source (h x)"
    "description (h' x) = description (h x)" "x \<notin> set entries \<longrightarrow> h' x = h x"
    by (simp_all add: same_article_def)
next
  fix out
  from assms have loop: "enrich_loop C topic_label entries [] h w = (res, h', w')"
    by (simp add: enrich_news_def)
  show "res = Inr out \<longrightarrow> out = entries"
    using enrich_loop_result [of C topic_label entries "[]" h w out h' w'] loop by simp
next
  from assms have loop: "enrich_loop C topic_label entries [] h w = (res, h', w')"
    by (simp add: enrich_news_def)
  show "\<not> truthy_str (OPENROUTER_KEY C) \<longrightarrow> res = Inr entries"
    using enrich_loop_without_key [of C topic_label entries "[]" h w] loop by auto
qed

lemma enrich_news_store0:
  "enrich_news config_nokey [0, 1] (asc ''AI'') store0 world0
   = (Inr [0, 1],
      store0(0 := entry_x_new\<lparr>translation := Some (asc ''new''), summary := Some PLACEHOLDER,
                              kept_original := True\<rparr>,
             1 := entry_cjk\<lparr>translation := Some [0x4E2D, 0x6587],
                            summary := Some (LABEL @ [0x4E2D, 0x6587] @ DASH @ [0x4E2D, 0x6587]),
                            kept_original := True\<rparr>),
      world0\<lparr>client_calls := 1\<rparr>)"
proof -
  have first: "translate_and_summarize config_nokey entry_x_new (asc ''AI'') world0
               = (Inr (entry_x_new\<lparr>translation := Some (asc ''new''),
                                     summary := Some PLACEHOLDER, kept_original := True\<rparr>),
                  world0\<lparr>client_calls := 1\<rparr>)"
    by (simp add: translate_and_summarize_def reply_fields_def call_openrouter_def
        config_nokey_def config_with_def description_or_title_def entry_x_new_def world0_def
        asc_def Let_def)
  have second: "local_summary (Some [0x4E2D, 0x6587]) (Some [0x4E2D, 0x6587]) 200
                = LABEL @ [0x4E2D, 0x6587] @ DASH @ [0x4E2D, 0x6587]"
    by (simp add: local_summary_def str_eval)
  from store0_decisions first second show ?thesis
    by (simp add: enrich_news_def store0_def description_or_title_def entry_cjk_def Let_def)
qed

theorem enrich_news_frame_witness:
  "fst (enrich_news config_nokey [0, 1] (asc ''AI'') store0 world0) = Inr [0, 1]
   \<and> description (fst (snd (enrich_news config_nokey [0, 1] (asc ''AI'') store0 world0)) 0)
       = description (store0 0)
   \<and> translation (fst (snd (enrich_news config_nokey [0, 1] (asc ''AI'') store0 world0)) 0)
       = Some (asc ''new'')
   \<and> translation (store0 0) = None
   \<and> fst (snd (enrich_news config_nokey [0, 1] (asc ''AI'') store0 world0)) 2 = store0 2"
proof -
  let ?run = "enrich_news config_nokey [0, 1] (asc ''AI'') store0 world0"
  have run: "?run = (fst ?run, fst (snd ?run), snd (snd ?run))" by simp
  from enrich_news_frame [OF run]
  have same: "description (fst (snd ?run) 0) = description (store0 0)"
    and rest: "2 \<notin> set [0, 1::nat] \<longrightarrow> fst (snd ?run) 2 = store0 2"
    and returns: "\<not> truthy_str (OPENROUTER_KEY config_nokey) \<longrightarrow> fst ?run = Inr [0, 1]"
    by blast+
  have nokey: "\<not> truthy_str (OPENROUTER_KEY config_nokey)"
    by (simp add: config_nokey_def)
  have new: "translation (fst (snd ?run) 0) = Some (asc ''new'')"
    unfolding enrich_news_store0 by simp
  have old: "translation (store0 0) = None"
    by (simp add: store0_def entry_x_new_def)
  from same rest returns nokey new old show ?thesis by simp
qed

end
